theory Spec2Isabelle
  imports Complex_Main "HOL-Library.Multiset"
begin

section \<open>Python values used by the converter\<close>

text \<open>
  The embedding follows \<^verbatim>\<open>main_v1.py\<close>. A Python \<^verbatim>\<open>str\<close> is a \<^typ>\<open>string\<close>; the
  model covers ASCII text, so a character above 127 is an ordinary character that is neither
  white space, nor a digit, nor a letter with a case. Python's unbounded \<^verbatim>\<open>int\<close> is
  \<^typ>\<open>int\<close> (\<^typ>\<open>nat\<close> for the record serial, which only counts upwards from 3). An
  uncaught exception is a value of \<open>error\<close> on the left of a sum.
\<close>

datatype error = KeyError string | ValueError | IndexError

subsection \<open>Strings\<close>

definition isspace :: "char \<Rightarrow> bool" where
  \<comment> \<open>\<^verbatim>\<open>str.isspace\<close> on ASCII: TAB, LF, VT, FF, CR, FS, GS, RS, US and the blank\<close>
  "isspace c = (of_char c \<in> {9::nat, 10, 11, 12, 13, 28, 29, 30, 31, 32})"

definition strip :: "string \<Rightarrow> string" where
  "strip s = rev (dropWhile isspace (rev (dropWhile isspace s)))"

definition isdigit :: "char \<Rightarrow> bool" where
  "isdigit c = (48 \<le> (of_char c :: nat) \<and> (of_char c :: nat) \<le> 57)"

definition digit_val :: "char \<Rightarrow> nat" where
  "digit_val c = of_char c - 48"

definition upper_char :: "char \<Rightarrow> char" where
  "upper_char c = (if 97 \<le> (of_char c :: nat) \<and> (of_char c :: nat) \<le> 122
                   then char_of ((of_char c :: nat) - 32) else c)"

definition lower_char :: "char \<Rightarrow> char" where
  "lower_char c = (if 65 \<le> (of_char c :: nat) \<and> (of_char c :: nat) \<le> 90
                   then char_of ((of_char c :: nat) + 32) else c)"

definition upper :: "string \<Rightarrow> string" where
  "upper s = map upper_char s"

definition lower :: "string \<Rightarrow> string" where
  "lower s = map lower_char s"

definition ljust :: "string \<Rightarrow> nat \<Rightarrow> string" where
  "ljust s n = s @ replicate (n - length s) CHR '' ''"

definition rjust :: "string \<Rightarrow> nat \<Rightarrow> char \<Rightarrow> string" where
  "rjust s n fill = replicate (n - length s) fill @ s"

definition zfill :: "string \<Rightarrow> nat \<Rightarrow> string" where
  \<comment> \<open>\<^verbatim>\<open>str.zfill\<close>: the zeros go after a leading sign\<close>
  "zfill s n =
     (if n \<le> length s then s
      else case s of
             c # r \<Rightarrow> if c = CHR ''+'' \<or> c = CHR ''-''
                      then c # replicate (n - length s) CHR ''0'' @ r
                      else replicate (n - length s) CHR ''0'' @ s
           | [] \<Rightarrow> replicate n CHR ''0'')"

definition last_chars :: "string \<Rightarrow> nat \<Rightarrow> string" where
  \<comment> \<open>the slice \<^verbatim>\<open>s[-n:]\<close>; \<^verbatim>\<open>s[-0:]\<close> is the whole string\<close>
  "last_chars s n = (if n = 0 then s else drop (length s - n) s)"

subsection \<open>Integers and their decimal text\<close>

definition digit_char :: "nat \<Rightarrow> char" where
  "digit_char d = ''0123456789'' ! d"

fun str_nat :: "nat \<Rightarrow> string" where
  "str_nat n = (if n < 10 then [digit_char n] else str_nat (n div 10) @ [digit_char (n mod 10)])"

declare str_nat.simps [simp del]

definition fmt02 :: "nat \<Rightarrow> string" where
  \<comment> \<open>the format specification \<^verbatim>\<open>:02d\<close> and strftime's two-digit fields\<close>
  "fmt02 n = rjust (str_nat n) 2 CHR ''0''"

definition dec_value :: "string \<Rightarrow> nat" where
  "dec_value s = foldl (\<lambda>acc c. 10 * acc + digit_val c) 0 s"

definition int_space :: "char \<Rightarrow> bool" where
  \<comment> \<open>the white space \<^verbatim>\<open>int()\<close> strips from an ASCII string\<close>
  "int_space c = (of_char c \<in> {9::nat, 10, 11, 12, 13, 32})"

fun int_body_ok :: "string \<Rightarrow> bool" where
  \<comment> \<open>digits, with single underscores allowed between digits\<close>
  "int_body_ok [] = False"
| "int_body_ok [c] = isdigit c"
| "int_body_ok (c # u # r) =
     (isdigit c \<and> (if u = CHR ''_'' then int_body_ok r else int_body_ok (u # r)))"

definition int_unsigned :: "string \<Rightarrow> int option" where
  "int_unsigned s =
     (if int_body_ok s then Some (int (dec_value (filter isdigit s))) else None)"

definition py_int :: "string \<Rightarrow> int option" where
  \<comment> \<open>\<^verbatim>\<open>int(s)\<close> for a string; \<open>None\<close> stands for ValueError\<close>
  "py_int s =
     (case rev (dropWhile int_space (rev (dropWhile int_space s))) of
        [] \<Rightarrow> None
      | c # r \<Rightarrow> if c = CHR ''-'' then map_option uminus (int_unsigned r)
                 else if c = CHR ''+'' then int_unsigned r
                 else int_unsigned (c # r))"

definition py_round :: "rat \<Rightarrow> int" where
  \<comment> \<open>\<^verbatim>\<open>round(x)\<close>: to the nearest integer, a tie to the even one\<close>
  "py_round x =
     (let f = \<lfloor>x\<rfloor>; r = x - of_int f
      in if r < 1 / 2 then f else if 1 / 2 < r then f + 1 else if even f then f else f + 1)"

subsection \<open>Field padding\<close>

definition pad_right :: "string \<Rightarrow> nat \<Rightarrow> string" where
  "pad_right s n = ljust (take n s) n"

definition pad_left :: "string \<Rightarrow> nat \<Rightarrow> char \<Rightarrow> string" where
  "pad_left s n fill = rjust (last_chars s n) n fill"

definition ssim_time_field :: "string \<Rightarrow> string" where
  "ssim_time_field t = zfill t 4"


section \<open>Dates\<close>

text \<open>
  A \<^verbatim>\<open>datetime\<close> value. Every value the program holds comes from \<^verbatim>\<open>strptime\<close>,
  from \<^verbatim>\<open>replace(hour=, minute=)\<close> or from the clock, so its month lies in 1..12 and its
  day in the month; seconds and microseconds are zero on parsed values and are never
  printed, so they are left out.
\<close>

record datetime =
  year :: nat
  month :: nat
  day :: nat
  hour :: nat
  minute :: nat

definition month_abbr :: "string list" where
  "month_abbr = [''Jan'', ''Feb'', ''Mar'', ''Apr'', ''May'', ''Jun'',
                 ''Jul'', ''Aug'', ''Sep'', ''Oct'', ''Nov'', ''Dec'']"

definition strftime_dby :: "datetime \<Rightarrow> string" where
  \<comment> \<open>\<^verbatim>\<open>strftime('%d%b%y')\<close> with English month names\<close>
  "strftime_dby dt = fmt02 (day dt) @ month_abbr ! (month dt - 1) @ fmt02 (year dt mod 100)"

definition is_leap :: "nat \<Rightarrow> bool" where
  "is_leap y = (y mod 4 = 0 \<and> (y mod 100 \<noteq> 0 \<or> y mod 400 = 0))"

definition days_in_month :: "nat \<Rightarrow> nat \<Rightarrow> nat" where
  "days_in_month y m =
     (if m = 2 then (if is_leap y then 29 else 28)
      else if m \<in> {4, 6, 9, 11} then 30 else 31)"

definition days_before_year :: "nat \<Rightarrow> nat" where
  "days_before_year y = (y - 1) * 365 + (y - 1) div 4 - (y - 1) div 100 + (y - 1) div 400"

definition days_before_month :: "nat \<Rightarrow> nat \<Rightarrow> nat" where
  "days_before_month y m = sum_list (map (days_in_month y) [1..<m])"

definition toordinal :: "datetime \<Rightarrow> nat" where
  "toordinal dt = days_before_year (year dt) + days_before_month (year dt) (month dt) + day dt"

definition isoweekday :: "datetime \<Rightarrow> nat" where
  "isoweekday dt = (if toordinal dt mod 7 = 0 then 7 else toordinal dt mod 7)"

definition strftime_u :: "datetime \<Rightarrow> string" where
  \<comment> \<open>\<^verbatim>\<open>strftime('%u')\<close>: the ISO weekday, Monday is 1\<close>
  "strftime_u dt = str_nat (isoweekday dt)"

definition plus_one_day :: "datetime \<Rightarrow> datetime" where
  \<comment> \<open>\<^verbatim>\<open>dt + timedelta(days=1)\<close>, for a clock reading before the last day of year 9999\<close>
  "plus_one_day dt =
     (if day dt < days_in_month (year dt) (month dt) then dt\<lparr>day := day dt + 1\<rparr>
      else if month dt < 12 then dt\<lparr>month := month dt + 1, day := 1\<rparr>
      else dt\<lparr>year := year dt + 1, month := 1, day := 1\<rparr>)"

definition dt_less :: "datetime \<Rightarrow> datetime \<Rightarrow> bool" where
  \<comment> \<open>the order of naive datetimes\<close>
  "dt_less a b =
     (year a < year b \<or> (year a = year b \<and>
     (month a < month b \<or> (month a = month b \<and>
     (day a < day b \<or> (day a = day b \<and>
     (hour a < hour b \<or> (hour a = hour b \<and> minute a < minute b))))))))"

fun min_dt :: "datetime \<Rightarrow> datetime list \<Rightarrow> datetime" where
  \<comment> \<open>\<^verbatim>\<open>min\<close> of a non-empty list: the first least element\<close>
  "min_dt m [] = m"
| "min_dt m (x # xs) = min_dt (if dt_less x m then x else m) xs"

fun max_dt :: "datetime \<Rightarrow> datetime list \<Rightarrow> datetime" where
  "max_dt m [] = m"
| "max_dt m (x # xs) = max_dt (if dt_less m x then x else m) xs"

subsection \<open>The library's \<^verbatim>\<open>datetime.strptime\<close>\<close>

text \<open>
  \<^verbatim>\<open>strptime\<close> turns the format into a regular expression, one group per directive,
  matches it case-insensitively at the start of the string with ordered alternatives and
  backtracking, rejects a match that leaves characters over, and then builds the date,
  rejecting a day that the month does not have and the year 0. Each rejection is a
  ValueError, here \<open>None\<close>. The groups are
  \<^verbatim>\<open>%d = 3[0-1]|[1-2]\d|0[1-9]|[1-9]| [1-9]\<close>, \<^verbatim>\<open>%m = 1[0-2]|0[1-9]|[1-9]\<close>,
  \<^verbatim>\<open>%y = \d\d\<close>, \<^verbatim>\<open>%Y = \d\d\d\d\<close> and \<^verbatim>\<open>%b\<close> = the twelve month abbreviations.
\<close>

datatype directive = Dir_d | Dir_b | Dir_m | Dir_y | Dir_Y | Lit char

fun format_directives :: "string \<Rightarrow> directive list option" where
  "format_directives [] = Some []"
| "format_directives [c] = (if c = CHR ''%'' then None else Some [Lit c])"
| "format_directives (c # e # r) =
     (if c = CHR ''%'' then
        (if e = CHR ''d'' then map_option ((#) Dir_d) (format_directives r)
         else if e = CHR ''b'' then map_option ((#) Dir_b) (format_directives r)
         else if e = CHR ''m'' then map_option ((#) Dir_m) (format_directives r)
         else if e = CHR ''y'' then map_option ((#) Dir_y) (format_directives r)
         else if e = CHR ''Y'' then map_option ((#) Dir_Y) (format_directives r)
         else None)
      else map_option ((#) (Lit c)) (format_directives (e # r)))"

definition two_digits :: "(nat \<Rightarrow> nat \<Rightarrow> bool) \<Rightarrow> string \<Rightarrow> (nat \<times> string) list" where
  "two_digits ok s =
     (case s of
        a # b # r \<Rightarrow>
          if isdigit a \<and> isdigit b \<and> ok (digit_val a) (digit_val b)
          then [(10 * digit_val a + digit_val b, r)] else []
      | _ \<Rightarrow> [])"

definition one_digit :: "string \<Rightarrow> (nat \<times> string) list" where
  \<comment> \<open>\<^verbatim>\<open>[1-9]\<close>\<close>
  "one_digit s =
     (case s of a # r \<Rightarrow> if isdigit a \<and> 1 \<le> digit_val a then [(digit_val a, r)] else []
      | [] \<Rightarrow> [])"

definition four_digits :: "string \<Rightarrow> (nat \<times> string) list" where
  "four_digits s =
     (if 4 \<le> length s \<and> list_all isdigit (take 4 s) then [(dec_value (take 4 s), drop 4 s)]
      else [])"

definition month_name :: "string \<Rightarrow> (nat \<times> string) list" where
  "month_name s =
     (if 3 \<le> length s \<and> lower (take 3 s) \<in> set (map lower month_abbr)
      then [(Suc (length (takeWhile (\<lambda>n. n \<noteq> lower (take 3 s)) (map lower month_abbr))), drop 3 s)]
      else [])"

definition alternatives :: "directive \<Rightarrow> string \<Rightarrow> (nat \<times> string) list" where
  \<comment> \<open>the ways a group matches a prefix of the string, in the order the regex tries them\<close>
  "alternatives d s =
     (case d of
        Dir_d \<Rightarrow> two_digits (\<lambda>a b. a = 3 \<and> b \<le> 1) s @ two_digits (\<lambda>a b. a = 1 \<or> a = 2) s
                 @ two_digits (\<lambda>a b. a = 0 \<and> 1 \<le> b) s @ one_digit s
                 @ (case s of c # r \<Rightarrow> if c = CHR '' '' then one_digit r else [] | [] \<Rightarrow> [])
      | Dir_m \<Rightarrow> two_digits (\<lambda>a b. a = 1 \<and> b \<le> 2) s @ two_digits (\<lambda>a b. a = 0 \<and> 1 \<le> b) s
                 @ one_digit s
      | Dir_y \<Rightarrow> two_digits (\<lambda>a b. True) s
      | Dir_Y \<Rightarrow> four_digits s
      | Dir_b \<Rightarrow> month_name s
      | Lit c \<Rightarrow> (case s of a # r \<Rightarrow> if lower_char a = lower_char c then [(0, r)] else []
                  | [] \<Rightarrow> []))"

fun regex_match :: "directive list \<Rightarrow> string \<Rightarrow> ((directive \<times> nat) list \<times> string) option"
  and try_alternatives ::
    "directive \<Rightarrow> directive list \<Rightarrow> (nat \<times> string) list \<Rightarrow> ((directive \<times> nat) list \<times> string) option"
where
  "regex_match [] s = Some ([], s)"
| "regex_match (d # ds) s = try_alternatives d ds (alternatives d s)"
| "try_alternatives d ds [] = None"
| "try_alternatives d ds ((v, rest) # others) =
     (case regex_match ds rest of
        Some (found, e) \<Rightarrow> Some ((d, v) # found, e)
      | None \<Rightarrow> try_alternatives d ds others)"

definition found_year :: "(directive \<times> nat) list \<Rightarrow> nat" where
  \<comment> \<open>a two-digit year up to 68 is in the 2000s, from 69 on in the 1900s\<close>
  "found_year found =
     (case map_of found Dir_Y of
        Some y \<Rightarrow> y
      | None \<Rightarrow> (case map_of found Dir_y of
                   Some y \<Rightarrow> if y \<le> 68 then 2000 + y else 1900 + y
                 | None \<Rightarrow> 1900))"

definition found_month :: "(directive \<times> nat) list \<Rightarrow> nat" where
  "found_month found =
     (case map_of found Dir_m of
        Some m \<Rightarrow> m
      | None \<Rightarrow> (case map_of found Dir_b of Some m \<Rightarrow> m | None \<Rightarrow> 1))"

definition found_day :: "(directive \<times> nat) list \<Rightarrow> nat" where
  "found_day found = (case map_of found Dir_d of Some d \<Rightarrow> d | None \<Rightarrow> 1)"

definition strptime :: "string \<Rightarrow> string \<Rightarrow> datetime option" where
  "strptime data_string fmt =
     (case format_directives fmt of
        None \<Rightarrow> None
      | Some ds \<Rightarrow>
         (case regex_match ds data_string of
            None \<Rightarrow> None
          | Some (found, rest) \<Rightarrow>
              if rest \<noteq> [] then None
              else if found_year found < 1
                      \<or> days_in_month (found_year found) (found_month found) < found_day found
              then None
              else Some \<lparr>year = found_year found, month = found_month found,
                         day = found_day found, hour = 0, minute = 0\<rparr>))"

subsection \<open>\<^verbatim>\<open>parse_flexible_date\<close>\<close>

definition date_formats :: "string list" where
  "date_formats = [''%d%b%y'', ''%m/%d/%Y'', ''%m/%d/%y'', ''%d-%b-%y'',
                   ''%d/%m/%Y'', ''%Y-%m-%d'', ''%d%b%Y'', ''%m-%d-%Y'']"

fun try_formats :: "string \<Rightarrow> string list \<Rightarrow> datetime option" where
  \<comment> \<open>the \<^verbatim>\<open>for fmt in date_formats\<close> loop: return at the first format that parses\<close>
  "try_formats date_string [] = None"
| "try_formats date_string (fmt # fmts) =
     (case strptime date_string fmt of
        Some dt \<Rightarrow> Some dt
      | None \<Rightarrow> try_formats date_string fmts)"

definition parse_flexible_date :: "string \<Rightarrow> datetime option" where
  "parse_flexible_date date_string =
     (if date_string = [] \<or> strip date_string = [] then None
      else try_formats (strip date_string) date_formats)"


section \<open>The static offset estimator\<close>

text \<open>
  A UTC offset in hours is a Python float; the model uses \<^typ>\<open>rat\<close>. The estimator
  returns one of the literals \<^verbatim>\<open>-4.0\<close> to \<^verbatim>\<open>-8.0\<close>, which both represent exactly.
\<close>

definition eastern_airports :: "string set" where
  "eastern_airports =
     {''ATL'', ''DTW'', ''CHA'', ''CLE'', ''CVG'', ''PIT'', ''RIC'', ''ORF'', ''BWI'',
      ''BDL'', ''PHL'', ''BUF'', ''JFK'', ''LGA'', ''EWR'', ''BOS'', ''MIA'', ''FLL'',
      ''TPA'', ''MCO'', ''TLH'', ''CHS'', ''GRR'', ''RSW'', ''SRQ''}"

definition central_airports :: "string set" where
  "central_airports =
     {''MEM'', ''MSP'', ''ORD'', ''DFW'', ''MCI'', ''STL'', ''MSY'', ''IAH'', ''HOU'',
      ''SAT'', ''AUS'', ''OKC'', ''TUL'', ''LIT'', ''BHM'', ''MOB'', ''HSV''}"

definition mountain_airports :: "string set" where
  "mountain_airports =
     {''DEN'', ''PHX'', ''SLC'', ''ABQ'', ''BOI'', ''BIL'', ''GJT'', ''COS''}"

definition pacific_airports :: "string set" where
  "pacific_airports =
     {''LAX'', ''SFO'', ''SEA'', ''LAS'', ''SAN'', ''PDX'', ''SMF'', ''OAK'', ''SJC''}"

definition estimate_us_timezone_offset :: "string \<Rightarrow> datetime \<Rightarrow> rat" where
  "estimate_us_timezone_offset airport_code reference_date =
     (let is_dst = (3 \<le> month reference_date \<and> month reference_date \<le> 10)
      in if airport_code \<in> eastern_airports then (if is_dst then - 4 else - 5)
         else if airport_code \<in> central_airports then (if is_dst then - 5 else - 6)
         else if airport_code \<in> mountain_airports then
           (if airport_code = ''PHX'' then - 7 else (if is_dst then - 6 else - 7))
         else if airport_code \<in> pacific_airports then (if is_dst then - 7 else - 8)
         else (if is_dst then - 4 else - 5))"

subsection \<open>The estimator as the specification words it\<close>

datatype zone = Eastern | Central | Mountain | Pacific

definition spec_dst_in_effect :: "datetime \<Rightarrow> bool" where
  "spec_dst_in_effect reference_date = (month reference_date \<in> {3..10})"

fun spec_zone_offset :: "zone \<Rightarrow> bool \<Rightarrow> rat" where
  "spec_zone_offset Eastern dst = (if dst then - 4 else - 5)"
| "spec_zone_offset Central dst = (if dst then - 5 else - 6)"
| "spec_zone_offset Mountain dst = (if dst then - 6 else - 7)"
| "spec_zone_offset Pacific dst = (if dst then - 7 else - 8)"

definition spec_zone :: "string \<Rightarrow> zone" where
  \<comment> \<open>the set a code belongs to; a code in none of the four follows the Eastern rule\<close>
  "spec_zone code =
     (if code \<in> pacific_airports then Pacific
      else if code \<in> mountain_airports then Mountain
      else if code \<in> central_airports then Central
      else Eastern)"

definition spec_offset :: "string \<Rightarrow> datetime \<Rightarrow> rat" where
  "spec_offset code reference_date =
     (if code = ''PHX'' then - 7
      else spec_zone_offset (spec_zone code) (spec_dst_in_effect reference_date))"

section \<open>Legs and the reader\<close>

text \<open>
  A CSV row is the dictionary \<^verbatim>\<open>csv.DictReader\<close> yields, from column names to cells.
  Every cell is a string: the rows have as many cells as the header has names (a shorter
  row would hold \<^verbatim>\<open>None\<close> cells, which the model leaves out). A column that the file
  does not have is a key the row does not have.
  A leg is the row together with the six computed entries; \<^verbatim>\<open>leg.get(k, d)\<close> on one of
  the CSV columns reads the row. The Shells dictionary keeps insertion order, so it is an
  association list whose keys are distinct.
\<close>

type_synonym row = "string \<rightharpoonup> string"

record leg =
  cells :: row
  Dept_DateTime :: "datetime option"
  Arvl_DateTime :: "datetime option"
  Dept_UTC_Offset :: "rat option"
  Arvl_UTC_Offset :: "rat option"
  Dept_Time :: string
  Arvl_Time :: string

type_synonym shells = "(string \<times> leg list) list"

definition row_get :: "row \<Rightarrow> string \<Rightarrow> string \<Rightarrow> string" where
  "row_get r k d = (case r k of Some v \<Rightarrow> v | None \<Rightarrow> d)"

definition leg_get :: "leg \<Rightarrow> string \<Rightarrow> string \<Rightarrow> string" where
  "leg_get l k d = row_get (cells l) k d"

definition combine_date_time :: "datetime option \<Rightarrow> string \<Rightarrow> datetime option" where
  \<comment> \<open>\<^verbatim>\<open>date.replace(hour=int(t[:2]), minute=int(t[2:]))\<close> under \<^verbatim>\<open>except Exception\<close>\<close>
  "combine_date_time date_obj t =
     (case date_obj of
        None \<Rightarrow> None
      | Some d \<Rightarrow>
         (case py_int (take 2 t) of
            None \<Rightarrow> None
          | Some h \<Rightarrow>
             (case py_int (drop 2 t) of
                None \<Rightarrow> None
              | Some m \<Rightarrow>
                  if 0 \<le> h \<and> h \<le> 23 \<and> 0 \<le> m \<and> m \<le> 59
                  then Some (d\<lparr>hour := nat h, minute := nat m\<rparr>) else None)))"

definition read_row :: "(string \<rightharpoonup> rat) \<Rightarrow> row \<Rightarrow> error + leg" where
  "read_row airport_offsets r =
     (case r ''Dept Time'' of
        None \<Rightarrow> Inl (KeyError ''Dept Time'')
      | Some dept_time0 \<Rightarrow>
     (case r ''Arvl Time'' of
        None \<Rightarrow> Inl (KeyError ''Arvl Time'')
      | Some arvl_time0 \<Rightarrow>
     (case r ''Dept Sta'' of
        None \<Rightarrow> Inl (KeyError ''Dept Sta'')
      | Some dept_sta \<Rightarrow>
     (case r ''Arvl Sta'' of
        None \<Rightarrow> Inl (KeyError ''Arvl Sta'')
      | Some arvl_sta \<Rightarrow>
          Inr \<lparr>cells = r,
               Dept_DateTime =
                 combine_date_time (parse_flexible_date (row_get r ''Dept Date'' [])) (zfill dept_time0 4),
               Arvl_DateTime =
                 combine_date_time (parse_flexible_date (row_get r ''Arvl Date'' [])) (zfill arvl_time0 4),
               Dept_UTC_Offset = airport_offsets (upper dept_sta),
               Arvl_UTC_Offset = airport_offsets (upper arvl_sta),
               Dept_Time = zfill dept_time0 4,
               Arvl_Time = zfill arvl_time0 4\<rparr>))))"

fun dict_append :: "shells \<Rightarrow> string \<Rightarrow> leg \<Rightarrow> shells" where
  \<comment> \<open>\<^verbatim>\<open>if k not in shells: shells[k] = []\<close> and then \<^verbatim>\<open>shells[k].append(v)\<close>\<close>
  "dict_append [] k v = [(k, [v])]"
| "dict_append ((k', vs) # rest) k v =
     (if k' = k then (k', vs @ [v]) # rest else (k', vs) # dict_append rest k v)"

fun read_rows :: "(string \<rightharpoonup> rat) \<Rightarrow> row list \<Rightarrow> leg list \<Rightarrow> shells \<Rightarrow> error + (leg list \<times> shells)" where
  "read_rows airport_offsets [] all_legs shells = Inr (all_legs, shells)"
| "read_rows airport_offsets (r # rows) all_legs shells =
     (case read_row airport_offsets r of
        Inl e \<Rightarrow> Inl e
      | Inr leg \<Rightarrow>
         (case r ''Line Num'' of
            None \<Rightarrow> Inl (KeyError ''Line Num'')
          | Some shell_id \<Rightarrow>
              read_rows airport_offsets rows (all_legs @ [leg]) (dict_append shells shell_id leg)))"

definition leg_seq_key :: "leg \<Rightarrow> int option" where
  \<comment> \<open>the sort key \<^verbatim>\<open>int(x.get("Leg Seq num", "1"))\<close>; \<open>None\<close> stands for ValueError\<close>
  "leg_seq_key x = py_int (leg_get x ''Leg Seq num'' ''1'')"

definition sort_shell :: "leg list \<Rightarrow> error + leg list" where
  \<comment> \<open>\<^verbatim>\<open>list.sort(key=...)\<close> computes every key first and then sorts stably\<close>
  "sort_shell shell =
     (if \<exists>x \<in> set shell. leg_seq_key x = None then Inl ValueError
      else Inr (sort_key (\<lambda>x. the (leg_seq_key x)) shell))"

fun sort_shells :: "shells \<Rightarrow> error + shells" where
  "sort_shells [] = Inr []"
| "sort_shells ((shell_id, shell) # rest) =
     (case sort_shell shell of
        Inl e \<Rightarrow> Inl e
      | Inr sorted_shell \<Rightarrow>
         (case sort_shells rest of
            Inl e \<Rightarrow> Inl e
          | Inr rest' \<Rightarrow> Inr ((shell_id, sorted_shell) # rest')))"

definition read_low_csv :: "(string \<rightharpoonup> rat) \<Rightarrow> row list \<Rightarrow> error + (leg list \<times> shells)" where
  "read_low_csv airport_offsets rows =
     (case read_rows airport_offsets rows [] [] of
        Inl e \<Rightarrow> Inl e
      | Inr (all_legs, shells) \<Rightarrow>
         (case sort_shells shells of
            Inl e \<Rightarrow> Inl e
          | Inr sorted_shells \<Rightarrow> Inr (all_legs, sorted_shells)))"


section \<open>The chained writer\<close>

text \<open>
  What the writer reads from outside its arguments: the clock at line 540
  (\<^verbatim>\<open>today_date\<close>), the clock inside \<^verbatim>\<open>find_operation_date_range\<close> when no leg has a
  date-time, and the library's \<^verbatim>\<open>dt - timedelta(hours=h)\<close> of the UTC mode, which
  the writer never selects: its \<^verbatim>\<open>time_zone\<close> is the constant \<^verbatim>\<open>'L'\<close>.
  The file name and the two schedule dates among the writer's arguments are only printed to
  the console, so the model leaves them out, as it leaves out the console, except for the
  message of line 571, which is kept as the log of the Shells processed. The result of the
  writer is the list of the lines written, each without its newline, and that log; a run
  that ends in an exception is the exception.
\<close>

record env =
  today_date :: datetime
  fallback_now :: datetime
  minus_hours :: "datetime \<Rightarrow> rat \<Rightarrow> datetime"

definition format_ssim_date :: "datetime option \<Rightarrow> string" where
  "format_ssim_date dt = (case dt of Some d \<Rightarrow> upper (strftime_dby d) | None \<Rightarrow> ljust [] 7)"

definition format_utc_offset :: "rat option \<Rightarrow> string" where
  "format_utc_offset offset =
     (case offset of
        None \<Rightarrow> ''0000''
      | Some off \<Rightarrow>
          (let sign = (if off < 0 then ''-'' else ''+'');
               abs_offset = \<bar>off\<bar>;
               hours = \<lfloor>abs_offset\<rfloor>;
               mins = py_round ((abs_offset - of_int hours) * 60)
           in sign @ fmt02 (nat hours) @ fmt02 (nat mins)))"

definition convert_date_to_utc_if_needed :: "env \<Rightarrow> datetime \<Rightarrow> rat option \<Rightarrow> char \<Rightarrow> datetime" where
  "convert_date_to_utc_if_needed e local_datetime timezone_offset time_zone_mode =
     (case timezone_offset of
        Some off \<Rightarrow> if time_zone_mode = CHR ''U'' then minus_hours e local_datetime off
                    else local_datetime
      | None \<Rightarrow> local_datetime)"

fun operation_dates :: "env \<Rightarrow> leg list \<Rightarrow> char \<Rightarrow> datetime list" where
  \<comment> \<open>the loop that fills \<^verbatim>\<open>all_operation_dates\<close>\<close>
  "operation_dates e [] time_zone_mode = []"
| "operation_dates e (leg # legs) time_zone_mode =
     (case Dept_DateTime leg of
        Some dept_dt \<Rightarrow> [convert_date_to_utc_if_needed e dept_dt (Dept_UTC_Offset leg) time_zone_mode]
      | None \<Rightarrow> [])
     @ (case Arvl_DateTime leg of
          Some arvl_dt \<Rightarrow> [convert_date_to_utc_if_needed e arvl_dt (Arvl_UTC_Offset leg) time_zone_mode]
        | None \<Rightarrow> [])
     @ operation_dates e legs time_zone_mode"

definition find_operation_date_range :: "env \<Rightarrow> leg list \<Rightarrow> char \<Rightarrow> datetime \<times> datetime" where
  "find_operation_date_range e all_legs time_zone_mode =
     (case operation_dates e all_legs time_zone_mode of
        d # ds \<Rightarrow> (min_dt d ds, max_dt d ds)
      | [] \<Rightarrow> (fallback_now e, plus_one_day (fallback_now e)))"

subsection \<open>The lines\<close>

definition zero_line :: string where
  "zero_line = replicate 200 CHR ''0''"

definition type1_header :: string where
  \<comment> \<open>the literal of line 533: the banner, 156 blanks, the serial block\<close>
  "type1_header = ''1AIRLINE STANDARD SCHEDULE DATA SET'' @ replicate 156 CHR '' '' @ ''001000001''"

definition type2_header :: "char \<Rightarrow> datetime \<Rightarrow> datetime \<Rightarrow> datetime \<Rightarrow> string" where
  "type2_header time_zone first_op_date last_op_date today =
     pad_right (''2'' @ [time_zone] @ ''DL  0008    ''
                @ upper (strftime_dby first_op_date) @ upper (strftime_dby last_op_date)
                @ upper (strftime_dby today)
                @ replicate 36 CHR '' '' @ ''PCreated by Python LoW-to-SSIM Converter'') 188
     @ ''EN1140000002''"

definition type3_record :: "leg \<Rightarrow> leg option \<Rightarrow> nat \<Rightarrow> string" where
  "type3_record leg next_leg record_serial =
     (let raw_airline_code = leg_get leg ''Aln'' ''DL'';
          raw_flight_number = leg_get leg ''Flt Num'' [];
          raw_itinerary_var = leg_get leg ''Line Num'' ''1'';
          raw_leg_seq_num = leg_get leg ''Leg Seq num'' ''1'';
          raw_service_type = leg_get leg ''Service Type'' ''J'';
          raw_dep_date_str = format_ssim_date (Dept_DateTime leg);
          raw_day_of_week = (case Dept_DateTime leg of Some dt \<Rightarrow> strftime_u dt | None \<Rightarrow> ''1'');
          raw_dep_airport = leg_get leg ''Dept Sta'' [];
          raw_arr_airport = leg_get leg ''Arvl Sta'' [];
          raw_ac_type = leg_get leg ''Equip'' ''73J'';
          raw_ac_config = leg_get leg ''AC Config'' [];
          raw_ac_owner = [];
          raw_onward_airline = (case next_leg of Some n \<Rightarrow> leg_get n ''Aln'' [] | None \<Rightarrow> []);
          raw_onward_fltno = (case next_leg of Some n \<Rightarrow> leg_get n ''Flt Num'' [] | None \<Rightarrow> []);
          raw_onward_leg_var = [];
          raw_onward_leg_seq = [];
          formatted_dep_time = ssim_time_field (Dept_Time leg);
          formatted_arr_time = ssim_time_field (Arvl_Time leg);
          formatted_dep_offset = format_utc_offset (Dept_UTC_Offset leg);
          formatted_arr_offset = format_utc_offset (Arvl_UTC_Offset leg);
          formatted_period_of_op = raw_dep_date_str @ raw_dep_date_str;
          rec = pad_right ''3'' 1 @ pad_right [] 1 @ pad_right raw_airline_code 3
              @ pad_left raw_flight_number 4 CHR '' '' @ pad_left raw_itinerary_var 2 CHR ''0''
              @ pad_left raw_leg_seq_num 2 CHR ''0'' @ pad_right raw_service_type 1
              @ pad_right formatted_period_of_op 14 @ pad_left raw_day_of_week 7 CHR '' ''
              @ pad_right [] 1 @ pad_right raw_dep_airport 3
              @ pad_right formatted_dep_time 4 @ pad_right formatted_dep_time 4
              @ pad_right formatted_dep_offset 5 @ pad_right [] 2
              @ pad_right raw_arr_airport 3
              @ pad_right formatted_arr_time 4 @ pad_right formatted_arr_time 4
              @ pad_right formatted_arr_offset 5 @ pad_right [] 2
              @ pad_right raw_ac_type 3 @ pad_right [] 23 @ pad_right raw_ac_owner 3
              @ pad_right [] 36 @ pad_right raw_onward_airline 3
              @ pad_left raw_onward_fltno 4 CHR '' '' @ pad_left raw_onward_leg_var 1 CHR '' ''
              @ pad_left raw_onward_leg_seq 1 CHR '' '' @ pad_right [] 26
              @ pad_right (raw_ac_config @ ''VV10'') 20 @ pad_right [] 2
              @ pad_left (str_nat record_serial) 6 CHR ''0''
      in pad_right rec 200)"

definition type4_record :: "leg \<Rightarrow> nat \<Rightarrow> string" where
  "type4_record leg record_serial =
     (let raw_airline_code = leg_get leg ''Aln'' ''DL'';
          raw_flight_number = leg_get leg ''Flt Num'' [];
          raw_itinerary_var = leg_get leg ''Line Num'' ''1'';
          raw_leg_seq_num = leg_get leg ''Leg Seq num'' ''1'';
          raw_service_type = leg_get leg ''Service Type'' ''J'';
          raw_dep_airport = leg_get leg ''Dept Sta'' [];
          raw_arr_airport = leg_get leg ''Arvl Sta'' [];
          reason_code = leg_get leg ''REASON CODE'' '' '';
          seg = pad_right ''4'' 1 @ pad_right [] 1 @ pad_right raw_airline_code 3
              @ pad_left raw_flight_number 4 CHR '' '' @ pad_left raw_itinerary_var 2 CHR ''0''
              @ pad_left raw_leg_seq_num 2 CHR ''0'' @ pad_right raw_service_type 1
              @ pad_right [] 13 @ pad_right [] 1 @ pad_right ''A'' 1 @ pad_right ''B'' 1
              @ pad_left ''997'' 3 CHR ''0'' @ pad_right raw_dep_airport 3
              @ pad_right raw_arr_airport 3 @ pad_right reason_code 155
              @ pad_left (str_nat record_serial) 6 CHR ''0''
      in pad_right seg 200)"

definition type5_record :: "datetime \<Rightarrow> nat \<Rightarrow> string" where
  "type5_record today record_serial =
     (let las = pad_right ''5'' 1 @ pad_right [] 1 @ pad_right ''DL'' 3
              @ pad_left (upper (strftime_dby today)) 7 CHR '' '' @ pad_left [] 175 CHR '' ''
              @ pad_left ''000999'' 6 CHR '' '' @ pad_left ''E'' 1 CHR '' ''
              @ pad_left (str_nat record_serial) 6 CHR ''0''
      in pad_right las 200)"

subsection \<open>Chaining the Shells\<close>

fun find_connecting_shell :: "shells \<Rightarrow> string set \<Rightarrow> string \<Rightarrow> string option" where
  "find_connecting_shell [] processed_shells arrival_airport = None"
| "find_connecting_shell ((shell_id, shell_legs) # rest) processed_shells arrival_airport =
     (if shell_id \<in> processed_shells then find_connecting_shell rest processed_shells arrival_airport
      else case shell_legs of
             [] \<Rightarrow> find_connecting_shell rest processed_shells arrival_airport
           | first_flight # _ \<Rightarrow>
               if upper (leg_get first_flight ''Dept Sta'' []) = upper arrival_airport
               then Some shell_id
               else find_connecting_shell rest processed_shells arrival_airport)"

definition truthy :: "string option \<Rightarrow> bool" where
  \<comment> \<open>\<^verbatim>\<open>if shell_id:\<close> holds for a string that is not empty; \<open>None\<close> and \<^verbatim>\<open>''\<close> are false\<close>
  "truthy r = (case r of Some sid \<Rightarrow> sid \<noteq> [] | None \<Rightarrow> False)"

definition dict_lookup :: "shells \<Rightarrow> string \<Rightarrow> error + leg list" where
  \<comment> \<open>\<^verbatim>\<open>shells[k]\<close>\<close>
  "dict_lookup shells k = (case map_of shells k of Some v \<Rightarrow> Inr v | None \<Rightarrow> Inl (KeyError k))"

definition onward_of_last :: "shells \<Rightarrow> string set \<Rightarrow> leg \<Rightarrow> error + leg option" where
  \<comment> \<open>lines 580 to 593: the onward leg of a Shell's last leg\<close>
  "onward_of_last shells processed_shells leg =
     (let last_arrival_airport = leg_get leg ''Arvl Sta'' [];
          connecting_shell_id = find_connecting_shell shells processed_shells last_arrival_airport
      in if truthy connecting_shell_id then
           (case dict_lookup shells (the connecting_shell_id) of
              Inl e \<Rightarrow> Inl e
            | Inr connecting_shell_legs \<Rightarrow>
                Inr (case connecting_shell_legs of first_leg # _ \<Rightarrow> Some first_leg | [] \<Rightarrow> None))
         else Inr None)"

fun process_legs :: "shells \<Rightarrow> string set \<Rightarrow> leg list \<Rightarrow> nat \<Rightarrow> error + (string list \<times> nat)" where
  \<comment> \<open>the loop over the legs of the current Shell: the lines written and the serial after them\<close>
  "process_legs shells processed_shells [] record_serial = Inr ([], record_serial)"
| "process_legs shells processed_shells (leg # rest) record_serial =
     (case (case rest of
              next_leg_in_shell # _ \<Rightarrow> Inr (Some next_leg_in_shell)
            | [] \<Rightarrow> onward_of_last shells processed_shells leg) of
        Inl e \<Rightarrow> Inl e
      | Inr next_leg \<Rightarrow>
         (case process_legs shells processed_shells rest (record_serial + 2) of
            Inl e \<Rightarrow> Inl e
          | Inr (lines, final_serial) \<Rightarrow>
              Inr (type3_record leg next_leg record_serial
                     # type4_record leg (record_serial + 1) # lines, final_serial)))"

definition next_shell :: "shells \<Rightarrow> string set \<Rightarrow> string \<Rightarrow> leg list \<Rightarrow> error + string" where
  \<comment> \<open>lines 713 to 727, reached while some Shell is unprocessed\<close>
  "next_shell shells processed_shells current_shell_id current_shell_legs =
     (case current_shell_legs of
        [] \<Rightarrow> Inl IndexError
      | _ # _ \<Rightarrow>
         (let last_arrival_airport = leg_get (last current_shell_legs) ''Arvl Sta'' [];
              next_shell_id = find_connecting_shell shells processed_shells last_arrival_airport
          in if truthy next_shell_id then Inr (the next_shell_id)
             else (case filter (\<lambda>s. s \<notin> processed_shells) (map fst shells) of
                     u # _ \<Rightarrow> Inr u
                   | [] \<Rightarrow> Inr current_shell_id)))"

record loop_state =
  processed :: "string set"
  current :: string
  serial :: nat
  out :: "string list"
  visits :: "string list"

definition loop_body :: "shells \<Rightarrow> loop_state \<Rightarrow> error + loop_state" where
  \<comment> \<open>one pass of the \<^verbatim>\<open>while\<close> body; \<open>visits\<close> is the log of line 571\<close>
  "loop_body shells st =
     (case dict_lookup shells (current st) of
        Inl e \<Rightarrow> Inl e
      | Inr current_shell_legs \<Rightarrow>
         (case process_legs shells (insert (current st) (processed st)) current_shell_legs (serial st) of
            Inl e \<Rightarrow> Inl e
          | Inr (lines, final_serial) \<Rightarrow>
             (case (if card (insert (current st) (processed st)) < length shells
                    then next_shell shells (insert (current st) (processed st)) (current st)
                           current_shell_legs
                    else Inr (current st)) of
                Inl e \<Rightarrow> Inl e
              | Inr next_id \<Rightarrow>
                  Inr \<lparr>processed = insert (current st) (processed st), current = next_id,
                       serial = final_serial, out = out st @ lines,
                       visits = visits st @ [current st]\<rparr>)))"

partial_function (option) chain_loop :: "shells \<Rightarrow> loop_state \<Rightarrow> (error + loop_state) option" where
  "chain_loop shells st =
     (if card (processed st) < length shells
      then (case loop_body shells st of
              Inl e \<Rightarrow> Some (Inl e)
            | Inr st' \<Rightarrow> chain_loop shells st')
      else Some (Inr st))"

declare chain_loop.simps [code]

definition write_ssim_with_segments ::
    "env \<Rightarrow> leg list \<Rightarrow> shells \<Rightarrow> (error + (string list \<times> string list)) option" where
  \<comment> \<open>the lines written to the file and the Shells in the order they were processed\<close>
  "write_ssim_with_segments e all_legs shells =
     (let time_zone = CHR ''L'';
          first_op_date = fst (find_operation_date_range e all_legs time_zone);
          last_op_date = snd (find_operation_date_range e all_legs time_zone);
          head = [type1_header] @ replicate 4 zero_line
                 @ [type2_header time_zone first_op_date last_op_date (today_date e)]
                 @ replicate 4 zero_line
      in case map fst shells of
           [] \<Rightarrow> Some (Inr (head, []))
         | first_id # _ \<Rightarrow>
            (case chain_loop shells
                    \<lparr>processed = {}, current = first_id, serial = 3, out = [], visits = []\<rparr> of
               None \<Rightarrow> None
             | Some (Inl err) \<Rightarrow> Some (Inl err)
             | Some (Inr st) \<Rightarrow>
                 Some (Inr (head @ out st @ replicate 4 zero_line
                            @ [type5_record (today_date e) (serial st)]
                            @ replicate 14 zero_line, visits st))))"


section \<open>Notions the properties are stated with\<close>

definition field :: "string \<Rightarrow> nat \<Rightarrow> nat \<Rightarrow> string" where
  \<comment> \<open>the characters at positions \<open>a\<close> to \<open>b\<close> of a line, counted from 1\<close>
  "field l a b = take (Suc b - a) (drop (a - 1) l)"

fun pair_lines :: "(leg \<times> leg option) list \<Rightarrow> nat \<Rightarrow> string list" where
  \<comment> \<open>the Type-3/Type-4 pairs of a run of legs with their onward legs, from a given serial\<close>
  "pair_lines [] sn = []"
| "pair_lines ((leg, onward) # r) sn =
     type3_record leg onward sn # type4_record leg (sn + 1) # pair_lines r (sn + 2)"

definition shells_invariant :: "shells \<Rightarrow> bool" where
  \<comment> \<open>a dictionary has distinct keys, and the reader creates a Shell with its first leg\<close>
  "shells_invariant shells = (distinct (map fst shells) \<and> (\<forall>kv \<in> set shells. snd kv \<noteq> []))"

definition shell_legs :: "shells \<Rightarrow> string \<Rightarrow> leg list" where
  "shell_legs shells k = (case map_of shells k of Some legs \<Rightarrow> legs | None \<Rightarrow> [])"

definition file_lines :: "(error + (string list \<times> string list)) option \<Rightarrow> string list" where
  "file_lines r = (case r of Some (Inr (ls, vs)) \<Rightarrow> ls | _ \<Rightarrow> [])"

definition header_block :: "env \<Rightarrow> leg list \<Rightarrow> string list" where
  \<comment> \<open>the ten lines written before the first flight record\<close>
  "header_block e all_legs =
     [type1_header] @ replicate 4 zero_line
     @ [type2_header CHR ''L'' (fst (find_operation_date_range e all_legs CHR ''L''))
          (snd (find_operation_date_range e all_legs CHR ''L'')) (today_date e)]
     @ replicate 4 zero_line"

definition is_data_record :: "string \<Rightarrow> bool" where
  \<comment> \<open>a Type-3, Type-4 or Type-5 record, by its first character\<close>
  "is_data_record l = (case l of c # _ \<Rightarrow> c \<in> {CHR ''3'', CHR ''4'', CHR ''5''} | [] \<Rightarrow> False)"

definition record_serials :: "string list \<Rightarrow> nat list" where
  \<comment> \<open>the numbers at positions 195 to 200 of the Type-3, Type-4 and Type-5 records of a file\<close>
  "record_serials ls = map (\<lambda>l. dec_value (field l 195 200)) (filter is_data_record ls)"

definition same_date :: "datetime \<Rightarrow> datetime \<Rightarrow> bool" where
  "same_date a b = (year a = year b \<and> month a = month b \<and> day a = day b)"


definition required_columns :: "string set" where
  \<comment> \<open>the columns the reader subscripts; a row without one raises KeyError\<close>
  "required_columns = {''Dept Time'', ''Arvl Time'', ''Dept Sta'', ''Arvl Sta'', ''Line Num''}"




section \<open>Example data\<close>

definition example_row :: "string \<Rightarrow> string \<Rightarrow> string \<Rightarrow> string \<Rightarrow> string \<Rightarrow> string \<Rightarrow> row" where
  "example_row line seq flt dep arr dept_date =
     map_of [(''Aln'', ''DL''), (''Flt Num'', flt), (''Line Num'', line), (''Leg Seq num'', seq),
             (''Service Type'', ''J''), (''Dept Sta'', dep), (''Arvl Sta'', arr),
             (''Dept Date'', dept_date), (''Arvl Date'', dept_date),
             (''Dept Time'', ''930''), (''Arvl Time'', ''1145''), (''Equip'', ''73J''),
             (''AC Config'', ''F12Y138''), (''REASON CODE'', ''CRWB'')]"

definition example_leg :: "string \<Rightarrow> string \<Rightarrow> string \<Rightarrow> string \<Rightarrow> string \<Rightarrow> leg" where
  \<comment> \<open>what the reader makes of \<open>example_row\<close> with an unparsable date and an empty offset table\<close>
  "example_leg line seq flt dep arr =
     \<lparr>cells = example_row line seq flt dep arr ''not-a-date'',
      Dept_DateTime = None, Arvl_DateTime = None,
      Dept_UTC_Offset = None, Arvl_UTC_Offset = None,
      Dept_Time = ''0930'', Arvl_Time = ''1145''\<rparr>"

definition example_env :: env where
  "example_env =
     \<lparr>today_date = \<lparr>year = 2026, month = 11, day = 4, hour = 10, minute = 30\<rparr>,
      fallback_now = \<lparr>year = 2026, month = 11, day = 4, hour = 10, minute = 30\<rparr>,
      minus_hours = (\<lambda>d h. d)\<rparr>"

definition example_env_next_day :: env where
  "example_env_next_day =
     \<lparr>today_date = \<lparr>year = 2026, month = 11, day = 5, hour = 10, minute = 30\<rparr>,
      fallback_now = \<lparr>year = 2026, month = 11, day = 5, hour = 10, minute = 30\<rparr>,
      minus_hours = (\<lambda>d h. d)\<rparr>"

definition example_shells :: shells where
  \<comment> \<open>rotation 1 is one leg JFK to ATL, rotation 2 one leg ATL to JFK\<close>
  "example_shells =
     [(''1'', [example_leg ''1'' ''1'' ''100'' ''JFK'' ''ATL'']),
      (''2'', [example_leg ''2'' ''1'' ''200'' ''ATL'' ''JFK''])]"

definition big_shells :: shells where
  \<comment> \<open>one rotation of 499999 legs\<close>
  "big_shells = [(''1'', replicate 499999 (example_leg ''1'' ''1'' ''100'' ''JFK'' ''JFK''))]"

definition empty_id_shells :: shells where
  \<comment> \<open>as \<open>example_shells\<close>, but the second rotation has the empty string as its \<^verbatim>\<open>Line Num\<close>\<close>
  "empty_id_shells =
     [(''1'', [example_leg ''1'' ''1'' ''100'' ''JFK'' ''ATL'']),
      ([], [example_leg [] ''1'' ''200'' ''ATL'' ''JFK''])]"

definition long_fields_leg :: leg where
  \<comment> \<open>a leg with a five-digit flight number and a four-character airline code\<close>
  "long_fields_leg =
     \<lparr>cells = map_of [(''Aln'', ''DALX''), (''Flt Num'', ''12345'')],
      Dept_DateTime = None, Arvl_DateTime = None,
      Dept_UTC_Offset = None, Arvl_UTC_Offset = None,
      Dept_Time = ''0930'', Arvl_Time = ''1145''\<rparr>"

definition example_env_same_day :: env where
  \<comment> \<open>a second run on the day of \<open>example_env\<close>, some hours later\<close>
  "example_env_same_day =
     \<lparr>today_date = \<lparr>year = 2026, month = 11, day = 4, hour = 23, minute = 59\<rparr>,
      fallback_now = \<lparr>year = 2026, month = 11, day = 4, hour = 23, minute = 59\<rparr>,
      minus_hours = (\<lambda>d h. d)\<rparr>"

definition row_without_seq :: row where
  \<comment> \<open>a row of a file that has no \<^verbatim>\<open>Leg Seq num\<close> column\<close>
  "row_without_seq =
     map_of [(''Aln'', ''DL''), (''Flt Num'', ''300''), (''Line Num'', ''1''),
             (''Dept Sta'', ''ATL''), (''Arvl Sta'', ''MIA''),
             (''Dept Date'', ''20Dec25''), (''Arvl Date'', ''20Dec25''),
             (''Dept Time'', ''1300''), (''Arvl Time'', ''1500'')]"

definition example_rows :: "row list" where
  "example_rows = [example_row ''1'' ''2'' ''100'' ''JFK'' ''ATL'' ''20Dec25'', row_without_seq]"

definition connecting_shell :: "shells \<Rightarrow> string set \<Rightarrow> string \<Rightarrow> (string \<times> leg list) option" where
  \<comment> \<open>the first Shell in insertion order that is not visited, has a leg, and whose first leg
      leaves from the given airport, compared without case\<close>
  "connecting_shell shells visited airport =
     find (\<lambda>kv. fst kv \<notin> visited \<and> snd kv \<noteq> []
                 \<and> upper (leg_get (hd (snd kv)) ''Dept Sta'' []) = upper airport) shells"

fun onward_legs :: "shells \<Rightarrow> string set \<Rightarrow> leg list \<Rightarrow> leg option list" where
  \<comment> \<open>the onward leg of each leg of a Shell: the next leg, and for the last leg the first leg
      of the connecting Shell\<close>
  "onward_legs shells visited [] = []"
| "onward_legs shells visited [l] =
     [map_option (\<lambda>kv. hd (snd kv)) (connecting_shell shells visited (leg_get l ''Arvl Sta'' []))]"
| "onward_legs shells visited (l # n # r) = Some n # onward_legs shells visited (n # r)"

section \<open>Lengths and layout of the records\<close>


lemma length_pad_right [simp]: "length (pad_right s n) = n"
  by (simp add: pad_right_def ljust_def)

lemma length_pad_left [simp]: "0 < n \<Longrightarrow> length (pad_left s n c) = n"
  by (simp add: pad_left_def rjust_def last_chars_def)

lemma pad_right_same: "length s = n \<Longrightarrow> pad_right s n = s"
  by (simp add: pad_right_def ljust_def)

lemma pad_right_Nil: "pad_right [] n = replicate n CHR '' ''"
  by (simp add: pad_right_def ljust_def)

lemma pad_left_Nil: "pad_left [] n c = replicate n c"
  by (simp add: pad_left_def rjust_def last_chars_def)

lemma type3_layout:
  "type3_record leg next_leg sn =
     pad_right ''3'' 1 @ pad_right [] 1 @ pad_right (leg_get leg ''Aln'' ''DL'') 3
     @ pad_left (leg_get leg ''Flt Num'' []) 4 CHR '' ''
     @ pad_left (leg_get leg ''Line Num'' ''1'') 2 CHR ''0''
     @ pad_left (leg_get leg ''Leg Seq num'' ''1'') 2 CHR ''0''
     @ pad_right (leg_get leg ''Service Type'' ''J'') 1
     @ pad_right (format_ssim_date (Dept_DateTime leg) @ format_ssim_date (Dept_DateTime leg)) 14
     @ pad_left (case Dept_DateTime leg of Some dt \<Rightarrow> strftime_u dt | None \<Rightarrow> ''1'') 7 CHR '' ''
     @ pad_right [] 1 @ pad_right (leg_get leg ''Dept Sta'' []) 3
     @ pad_right (ssim_time_field (Dept_Time leg)) 4 @ pad_right (ssim_time_field (Dept_Time leg)) 4
     @ pad_right (format_utc_offset (Dept_UTC_Offset leg)) 5 @ pad_right [] 2
     @ pad_right (leg_get leg ''Arvl Sta'' []) 3
     @ pad_right (ssim_time_field (Arvl_Time leg)) 4 @ pad_right (ssim_time_field (Arvl_Time leg)) 4
     @ pad_right (format_utc_offset (Arvl_UTC_Offset leg)) 5 @ pad_right [] 2
     @ pad_right (leg_get leg ''Equip'' ''73J'') 3 @ pad_right [] 23 @ pad_right [] 3
     @ pad_right [] 36
     @ pad_right (case next_leg of Some n \<Rightarrow> leg_get n ''Aln'' [] | None \<Rightarrow> []) 3
     @ pad_left (case next_leg of Some n \<Rightarrow> leg_get n ''Flt Num'' [] | None \<Rightarrow> []) 4 CHR '' ''
     @ pad_left [] 1 CHR '' '' @ pad_left [] 1 CHR '' '' @ pad_right [] 26
     @ pad_right (leg_get leg ''AC Config'' [] @ ''VV10'') 20 @ pad_right [] 2
     @ pad_left (str_nat sn) 6 CHR ''0''"
  unfolding type3_record_def Let_def
  by (rule pad_right_same) simp

lemma type4_layout:
  "type4_record leg sn =
     pad_right ''4'' 1 @ pad_right [] 1 @ pad_right (leg_get leg ''Aln'' ''DL'') 3
     @ pad_left (leg_get leg ''Flt Num'' []) 4 CHR '' ''
     @ pad_left (leg_get leg ''Line Num'' ''1'') 2 CHR ''0''
     @ pad_left (leg_get leg ''Leg Seq num'' ''1'') 2 CHR ''0''
     @ pad_right (leg_get leg ''Service Type'' ''J'') 1
     @ pad_right [] 13 @ pad_right [] 1 @ pad_right ''A'' 1 @ pad_right ''B'' 1
     @ pad_left ''997'' 3 CHR ''0'' @ pad_right (leg_get leg ''Dept Sta'' []) 3
     @ pad_right (leg_get leg ''Arvl Sta'' []) 3 @ pad_right (leg_get leg ''REASON CODE'' '' '') 155
     @ pad_left (str_nat sn) 6 CHR ''0''"
  unfolding type4_record_def Let_def
  by (rule pad_right_same) simp

lemma type5_layout:
  "type5_record today sn =
     pad_right ''5'' 1 @ pad_right [] 1 @ pad_right ''DL'' 3
     @ pad_left (upper (strftime_dby today)) 7 CHR '' '' @ pad_left [] 175 CHR '' ''
     @ pad_left ''000999'' 6 CHR '' '' @ pad_left ''E'' 1 CHR '' ''
     @ pad_left (str_nat sn) 6 CHR ''0''"
  unfolding type5_record_def Let_def
  by (rule pad_right_same) simp

lemma length_type3 [simp]: "length (type3_record leg nxt sn) = 200"
  by (simp add: type3_record_def Let_def)
lemma length_type4 [simp]: "length (type4_record leg sn) = 200"
  by (simp add: type4_record_def Let_def)
lemma length_type5 [simp]: "length (type5_record d sn) = 200"
  by (simp add: type5_record_def Let_def)
lemma length_type2 [simp]: "length (type2_header z a b c) = 200"
  by (simp add: type2_header_def)
lemma length_type1 [simp]: "length type1_header = 200"
  by (simp add: type1_header_def)
lemma length_zero_line [simp]: "length zero_line = 200"
  by (simp add: zero_line_def)

lemma type3_fields:
  "field (type3_record leg nxt sn) 3 5 = pad_right (leg_get leg ''Aln'' ''DL'') 3"
  "field (type3_record leg nxt sn) 6 9 = pad_left (leg_get leg ''Flt Num'' []) 4 CHR '' ''"
  "field (type3_record leg nxt sn) 15 28 = pad_right (format_ssim_date (Dept_DateTime leg) @ format_ssim_date (Dept_DateTime leg)) 14"
  "field (type3_record leg nxt sn) 29 35 = pad_left (case Dept_DateTime leg of Some dt \<Rightarrow> strftime_u dt | None \<Rightarrow> ''1'') 7 CHR '' ''"
  "field (type3_record leg nxt sn) 138 140 = pad_right (case nxt of Some n \<Rightarrow> leg_get n ''Aln'' [] | None \<Rightarrow> []) 3"
  "field (type3_record leg nxt sn) 141 144 = pad_left (case nxt of Some n \<Rightarrow> leg_get n ''Flt Num'' [] | None \<Rightarrow> []) 4 CHR '' ''"
  "field (type3_record leg nxt sn) 195 200 = pad_left (str_nat sn) 6 CHR ''0''"
  by (simp_all add: field_def type3_layout)

lemma type4_fields:
  "field (type4_record leg sn) 195 200 = pad_left (str_nat sn) 6 CHR ''0''"
  by (simp_all add: field_def type4_layout)

lemma type5_fields:
  "field (type5_record d sn) 195 200 = pad_left (str_nat sn) 6 CHR ''0''"
  by (simp_all add: field_def type5_layout)

section \<open>The chaining loop\<close>

lemma find_connecting_shell_Some:
  "find_connecting_shell shells P a = Some k \<Longrightarrow> k \<in> fst ` set shells \<and> k \<notin> P"
  by (induction shells P a rule: find_connecting_shell.induct)
     (auto split: if_splits list.splits)

lemma dict_lookup_key: "k \<in> fst ` set shells \<Longrightarrow> \<exists>legs. dict_lookup shells k = Inr legs"
  by (cases "map_of shells k") (auto simp: dict_lookup_def map_of_eq_None_iff)

lemma onward_of_last_ok: "\<exists>r. onward_of_last shells P leg = Inr r"
proof (cases "truthy (find_connecting_shell shells P (leg_get leg ''Arvl Sta'' []))")
  case True
  then obtain k where k: "find_connecting_shell shells P (leg_get leg ''Arvl Sta'' []) = Some k"
    by (auto simp: truthy_def split: option.splits)
  then obtain legs where "dict_lookup shells k = Inr legs"
    using find_connecting_shell_Some dict_lookup_key by blast
  with True k show ?thesis by (simp add: onward_of_last_def)
next
  case False
  then show ?thesis by (simp add: onward_of_last_def)
qed

lemma process_legs_pairs:
  "\<exists>ons. length ons = length legs \<and>
     process_legs shells P legs sn = Inr (pair_lines (zip legs ons) sn, sn + 2 * length legs)"
proof (induction legs arbitrary: sn)
  case Nil
  then show ?case by simp
next
  case (Cons leg rest)
  obtain ons where ons: "length ons = length rest"
    "process_legs shells P rest (sn + 2) = Inr (pair_lines (zip rest ons) (sn + 2), sn + 2 + 2 * length rest)"
    using Cons.IH by blast
  obtain nxt where nxt: "(case rest of n # _ \<Rightarrow> Inr (Some n) | [] \<Rightarrow> onward_of_last shells P leg) = Inr nxt"
    using onward_of_last_ok[of shells P leg] by (cases rest) auto
  have "process_legs shells P (leg # rest) sn
        = Inr (pair_lines (zip (leg # rest) (nxt # ons)) sn, sn + 2 * length (leg # rest))"
    using ons nxt by simp
  moreover have "length (nxt # ons) = length (leg # rest)" using ons by simp
  ultimately show ?case by blast
qed


lemma pair_lines_append:
  "pair_lines (a @ b) sn = pair_lines a sn @ pair_lines b (sn + 2 * length a)"
  by (induction a sn rule: pair_lines.induct) auto

lemma card_keys: "distinct (map fst shells) \<Longrightarrow> card (fst ` set shells) = length shells"
  using distinct_card[of "map fst shells"] by simp

lemma dict_lookup_shell_legs:
  "k \<in> fst ` set shells \<Longrightarrow> dict_lookup shells k = Inr (shell_legs shells k)"
  by (cases "map_of shells k") (auto simp: dict_lookup_def shell_legs_def map_of_eq_None_iff)

lemma shell_legs_nonempty:
  "shells_invariant shells \<Longrightarrow> k \<in> fst ` set shells \<Longrightarrow> shell_legs shells k \<noteq> []"
proof -
  assume inv: "shells_invariant shells" and k: "k \<in> fst ` set shells"
  then obtain legs where "(k, legs) \<in> set shells" by auto
  moreover from this inv have "map_of shells k = Some legs" "legs \<noteq> []"
    by (auto simp: shells_invariant_def)
  ultimately show ?thesis by (simp add: shell_legs_def)
qed

lemma next_shell_ok:
  assumes "legs \<noteq> []" and "P \<subseteq> fst ` set shells" and "card P < length shells"
    and "distinct (map fst shells)"
  shows "\<exists>nid. next_shell shells P cur legs = Inr nid \<and> nid \<in> fst ` set shells \<and> nid \<notin> P"
proof (cases "truthy (find_connecting_shell shells P (leg_get (last legs) ''Arvl Sta'' []))")
  case True
  then obtain k where k: "find_connecting_shell shells P (leg_get (last legs) ''Arvl Sta'' []) = Some k"
    by (auto simp: truthy_def split: option.splits)
  with True assms(1) have "next_shell shells P cur legs = Inr k"
    by (cases legs) (simp_all add: next_shell_def)
  with find_connecting_shell_Some[OF k] show ?thesis by simp
next
  case False
  have "P \<noteq> fst ` set shells" using assms(3,4) card_keys by fastforce
  with assms(2) obtain u where u: "u \<in> fst ` set shells" "u \<notin> P" by blast
  then have "filter (\<lambda>s. s \<notin> P) (map fst shells) \<noteq> []"
    by (auto simp: filter_empty_conv)
  then obtain v r where vr: "filter (\<lambda>s. s \<notin> P) (map fst shells) = v # r"
    by (cases "filter (\<lambda>s. s \<notin> P) (map fst shells)") auto
  then have "v \<in> set (filter (\<lambda>s. s \<notin> P) (map fst shells))" by simp
  then have v: "v \<in> fst ` set shells" "v \<notin> P" by auto
  from False vr assms(1) have "next_shell shells P cur legs = Inr v"
    by (cases legs) (simp_all add: next_shell_def)
  with v show ?thesis by simp
qed

lemma chain_loop_total:
  assumes inv: "shells_invariant shells"
  shows "processed st \<subseteq> fst ` set shells \<Longrightarrow> current st \<in> fst ` set shells \<Longrightarrow>
         current st \<notin> processed st \<Longrightarrow>
         \<exists>st' vs prs. chain_loop shells st = Some (Inr st') \<and>
           serial st' = serial st + 2 * length prs \<and>
           out st' = out st @ pair_lines prs (serial st) \<and>
           visits st' = visits st @ vs \<and>
           distinct vs \<and> set vs = fst ` set shells - processed st \<and>
           map fst prs = concat (map (shell_legs shells) vs)"
proof (induction "length shells - card (processed st)" arbitrary: st rule: less_induct)
  case less
  let ?K = "fst ` set shells"
  let ?P = "processed st"
  let ?c = "current st"
  let ?P' = "insert ?c ?P"
  let ?legs = "shell_legs shells ?c"
  have dist: "distinct (map fst shells)" using inv by (simp add: shells_invariant_def)
  have finK: "finite ?K" by simp
  have finP: "finite ?P" using less.prems(1) finK finite_subset by blast
  have cardK: "card ?K = length shells" using dist by (rule card_keys)
  have "?P \<subset> ?K" using less.prems by blast
  then have lt: "card ?P < length shells" using psubset_card_mono[OF finK] cardK by metis
  have cardP': "card ?P' = Suc (card ?P)" using finP less.prems(3) by simp
  have subP': "?P' \<subseteq> ?K" using less.prems by simp
  have legs_ne: "?legs \<noteq> []" using shell_legs_nonempty[OF inv less.prems(2)] .
  obtain ons where ons: "length ons = length ?legs"
    "process_legs shells ?P' ?legs (serial st)
       = Inr (pair_lines (zip ?legs ons) (serial st), serial st + 2 * length ?legs)"
    using process_legs_pairs by blast
  have look: "dict_lookup shells ?c = Inr ?legs"
    using dict_lookup_shell_legs[OF less.prems(2)] .
  show ?case
  proof (cases "card ?P' < length shells")
    case True
    obtain nid where nid: "next_shell shells ?P' ?c ?legs = Inr nid" "nid \<in> ?K" "nid \<notin> ?P'"
      using next_shell_ok[OF legs_ne subP' True dist] by blast
    define st1 where "st1 = \<lparr>processed = ?P', current = nid, serial = serial st + 2 * length ?legs,
        out = out st @ pair_lines (zip ?legs ons) (serial st), visits = visits st @ [?c]\<rparr>"
    have body: "loop_body shells st = Inr st1"
      using look ons(2) nid(1) True by (simp add: loop_body_def st1_def)
    have step: "chain_loop shells st = chain_loop shells st1"
      using lt body by (subst chain_loop.simps) simp
    have "length shells - card (processed st1) < length shells - card ?P"
      using True cardP' by (simp add: st1_def)
    moreover have "processed st1 \<subseteq> ?K" "current st1 \<in> ?K" "current st1 \<notin> processed st1"
      using subP' nid by (simp_all add: st1_def)
    ultimately obtain st' vs prs where r:
      "chain_loop shells st1 = Some (Inr st')"
      "serial st' = serial st1 + 2 * length prs"
      "out st' = out st1 @ pair_lines prs (serial st1)"
      "visits st' = visits st1 @ vs"
      "distinct vs" "set vs = ?K - processed st1"
      "map fst prs = concat (map (shell_legs shells) vs)"
      using less.hyps[of st1] by blast
    let ?vs = "?c # vs"
    let ?prs = "zip ?legs ons @ prs"
    have "chain_loop shells st = Some (Inr st')" using step r(1) by simp
    moreover have "serial st' = serial st + 2 * length ?prs"
      using r(2) ons(1) by (simp add: st1_def)
    moreover have "out st' = out st @ pair_lines ?prs (serial st)"
      using r(3) ons(1) by (simp add: st1_def pair_lines_append)
    moreover have "visits st' = visits st @ ?vs" using r(4) by (simp add: st1_def)
    moreover have "distinct ?vs" using r(5,6) by (simp add: st1_def)
    moreover have "set ?vs = ?K - ?P" using r(6) less.prems by (auto simp: st1_def)
    moreover have "map fst ?prs = concat (map (shell_legs shells) ?vs)"
      using r(7) ons(1) by simp
    ultimately show ?thesis by blast
  next
    case False
    define st1 where "st1 = \<lparr>processed = ?P', current = ?c, serial = serial st + 2 * length ?legs,
        out = out st @ pair_lines (zip ?legs ons) (serial st), visits = visits st @ [?c]\<rparr>"
    have body: "loop_body shells st = Inr st1"
      using look ons(2) False by (simp add: loop_body_def st1_def)
    have "chain_loop shells st = chain_loop shells st1"
      using lt body by (subst chain_loop.simps) simp
    also have "\<dots> = Some (Inr st1)"
      using False by (subst chain_loop.simps) (simp add: st1_def)
    finally have res: "chain_loop shells st = Some (Inr st1)" .
    have "card ?P' \<le> card ?K" using card_mono[OF finK subP'] .
    with False cardK have "card ?P' = card ?K" by simp
    with subP' finK have eq: "?P' = ?K" using card_subset_eq by blast
    let ?vs = "[?c]"
    let ?prs = "zip ?legs ons"
    have "serial st1 = serial st + 2 * length ?prs" using ons(1) by (simp add: st1_def)
    moreover have "out st1 = out st @ pair_lines ?prs (serial st)" by (simp add: st1_def)
    moreover have "visits st1 = visits st @ ?vs" by (simp add: st1_def)
    moreover have "distinct ?vs" by simp
    moreover have "set ?vs = ?K - ?P" using eq less.prems(3) by auto
    moreover have "map fst ?prs = concat (map (shell_legs shells) ?vs)" using ons(1) by simp
    ultimately show ?thesis using res by blast
  qed
qed

section \<open>The structure of the file\<close>

lemma map_shell_legs_keys:
  "distinct (map fst shells) \<Longrightarrow> map (shell_legs shells) (map fst shells) = map snd shells"
  by (auto simp: shell_legs_def)

lemma mset_concat_perm:
  assumes "mset xss = mset yss"
  shows "mset (concat xss) = mset (concat yss)"
proof -
  have "mset (concat xss) = sum_mset (mset (map mset xss))"
    by (simp only: mset_concat sum_mset_sum_list)
  also have "\<dots> = sum_mset (mset (map mset yss))"
    using assms by (metis mset_map)
  also have "\<dots> = mset (concat yss)"
    by (simp only: mset_concat sum_mset_sum_list)
  finally show ?thesis .
qed

lemma visited_legs_perm:
  assumes "distinct vs" and "set vs = fst ` set shells" and "distinct (map fst shells)"
  shows "mset (concat (map (shell_legs shells) vs)) = mset (concat (map snd shells))"
proof -
  have "set vs = set (map fst shells)" using assms(2) by simp
  then have "mset vs = mset (map fst shells)"
    using set_eq_iff_mset_eq_distinct[OF assms(1,3)] by blast
  then have "mset (map (shell_legs shells) vs) = mset (map (shell_legs shells) (map fst shells))"
    by (metis mset_map)
  then have "mset (map (shell_legs shells) vs) = mset (map snd shells)"
    using assms(3) by (simp only: map_shell_legs_keys)
  then show ?thesis by (rule mset_concat_perm)
qed

lemma write_structure:
  assumes inv: "shells_invariant shells" and ne: "shells \<noteq> []"
  shows "\<exists>vs prs. write_ssim_with_segments e all_legs shells
           = Some (Inr (header_block e all_legs @ pair_lines prs 3 @ replicate 4 zero_line
                        @ [type5_record (today_date e) (3 + 2 * length prs)]
                        @ replicate 14 zero_line, vs))
         \<and> distinct vs \<and> set vs = fst ` set shells
         \<and> map fst prs = concat (map (shell_legs shells) vs)"
proof -
  obtain k legs rest where sh: "shells = (k, legs) # rest" using ne by (cases shells) auto
  let ?st = "\<lparr>processed = {}, current = k, serial = 3, out = [], visits = []\<rparr>"
  have "processed ?st \<subseteq> fst ` set shells" "current ?st \<in> fst ` set shells"
       "current ?st \<notin> processed ?st"
    by (simp_all add: sh)
  from chain_loop_total[OF inv this] obtain st' vs prs where r:
    "chain_loop shells ?st = Some (Inr st')"
    "serial st' = 3 + 2 * length prs" "out st' = pair_lines prs 3" "visits st' = vs"
    "distinct vs" "set vs = fst ` set shells"
    "map fst prs = concat (map (shell_legs shells) vs)"
    by auto
  have "write_ssim_with_segments e all_legs shells
           = Some (Inr (header_block e all_legs @ pair_lines prs 3 @ replicate 4 zero_line
                        @ [type5_record (today_date e) (3 + 2 * length prs)]
                        @ replicate 14 zero_line, vs))"
    unfolding write_ssim_with_segments_def Let_def header_block_def
    using r(1-4) by (simp add: sh)
  with r(5-7) show ?thesis by blast
qed

lemma write_no_shells:
  "write_ssim_with_segments e all_legs [] = Some (Inr (header_block e all_legs, []))"
  by (simp add: write_ssim_with_segments_def Let_def header_block_def)



section \<open>The serial field\<close>

lemma dec_value_snoc: "dec_value (xs @ [c]) = 10 * dec_value xs + digit_val c"
  by (simp add: dec_value_def)

lemma dec_value_Nil: "dec_value [] = 0"
  by (simp add: dec_value_def)

lemma digit_val_digit_char: "d < 10 \<Longrightarrow> digit_val (digit_char d) = d"
proof -
  assume "d < 10"
  then have "d \<in> {0, 1, 2, 3, 4, 5, 6, 7, 8, 9}" by auto
  then show ?thesis by (auto simp: digit_val_def digit_char_def)
qed

lemma dec_value_zeros: "dec_value (replicate m CHR ''0'' @ s) = dec_value s"
proof -
  have "foldl (\<lambda>acc c. 10 * acc + digit_val c) 0 (replicate m CHR ''0'') = 0"
    by (induction m) (simp_all add: digit_val_def)
  then show ?thesis by (simp add: dec_value_def)
qed

lemma dec_value_last_digits:
  "dec_value (drop (length (str_nat n) - k) (str_nat n)) = n mod 10 ^ k"
proof (induction n arbitrary: k rule: str_nat.induct)
  case (1 n)
  show ?case
  proof (cases "n < 10")
    case True
    then have s: "str_nat n = [digit_char n]" by (simp add: str_nat.simps)
    show ?thesis
    proof (cases k)
      case 0
      then show ?thesis by (simp add: s dec_value_Nil)
    next
      case (Suc j)
      have "n < 10 ^ Suc j" using True by (simp add: less_le_trans[OF True] )
      then show ?thesis using True Suc
        by (simp add: s dec_value_def digit_val_digit_char)
    qed
  next
    case False
    then have s: "str_nat n = str_nat (n div 10) @ [digit_char (n mod 10)]"
      by (subst str_nat.simps) simp
    show ?thesis
    proof (cases k)
      case 0
      then show ?thesis by (simp add: s dec_value_Nil)
    next
      case (Suc j)
      have "drop (length (str_nat n) - k) (str_nat n)
            = drop (length (str_nat (n div 10)) - j) (str_nat (n div 10)) @ [digit_char (n mod 10)]"
        by (simp add: s Suc)
      then have "dec_value (drop (length (str_nat n) - k) (str_nat n))
            = 10 * ((n div 10) mod 10 ^ j) + n mod 10"
        using "1.IH"[OF False, of j] by (simp add: dec_value_snoc digit_val_digit_char)
      also have "\<dots> = n mod 10 ^ k"
        by (simp add: Suc mod_mult2_eq)
      finally show ?thesis .
    qed
  qed
qed

lemma serial_field_value: "dec_value (pad_left (str_nat n) 6 CHR ''0'') = n mod 1000000"
  using dec_value_last_digits[of n 6]
  by (simp add: pad_left_def rjust_def last_chars_def dec_value_zeros)

section \<open>The serials of a file\<close>

lemma is_data_record_hd:
  "is_data_record l = (l \<noteq> [] \<and> hd l \<in> {CHR ''3'', CHR ''4'', CHR ''5''})"
  by (cases l) (auto simp: is_data_record_def)

lemma pad_right_one: "pad_right [c] 1 = [c]"
  by (simp add: pad_right_def ljust_def)

lemma is_data_record_lines [simp]:
  "is_data_record (type3_record leg nxt sn)"
  "is_data_record (type4_record leg sn)"
  "is_data_record (type5_record d sn)"
  "\<not> is_data_record zero_line"
  "\<not> is_data_record type1_header"
  "\<not> is_data_record (type2_header z a b c)"
  by (simp_all add: is_data_record_hd type3_layout type4_layout type5_layout pad_right_one
        zero_line_def type1_header_def type2_header_def pad_right_def ljust_def)

lemma record_serials_append: "record_serials (a @ b) = record_serials a @ record_serials b"
  by (simp add: record_serials_def)

lemma record_serials_header: "record_serials (header_block e all_legs) = []"
  by (simp add: record_serials_def header_block_def)

lemma record_serials_zeros: "record_serials (replicate k zero_line) = []"
  by (simp add: record_serials_def)

lemma upt_two: "[sn..<sn + 2 * Suc n] = sn # Suc sn # [sn + 2..<sn + 2 + 2 * n]"
proof -
  have a: "[sn..<sn + 2 * Suc n] = sn # [Suc sn..<sn + 2 * Suc n]"
    by (rule upt_conv_Cons) simp
  have b: "[Suc sn..<sn + 2 * Suc n] = Suc sn # [Suc (Suc sn)..<sn + 2 * Suc n]"
    by (rule upt_conv_Cons) simp
  have c: "[Suc (Suc sn)..<sn + 2 * Suc n] = [sn + 2..<sn + 2 + 2 * n]"
    by simp
  show ?thesis by (simp only: a b c)
qed

lemma record_serials_Cons:
  "record_serials (l # ls)
   = (if is_data_record l then [dec_value (field l 195 200)] else []) @ record_serials ls"
  by (simp add: record_serials_def)

lemma record_serials_pairs:
  "record_serials (pair_lines prs sn) = map (\<lambda>k. k mod 1000000) [sn..<sn + 2 * length prs]"
proof (induction prs sn rule: pair_lines.induct)
  case (1 sn)
  then show ?case by (simp add: record_serials_def)
next
  case (2 leg onward r sn)
  have "record_serials (pair_lines ((leg, onward) # r) sn)
        = sn mod 1000000 # Suc sn mod 1000000 # record_serials (pair_lines r (sn + 2))"
    by (simp add: record_serials_Cons type3_fields type4_fields serial_field_value)
  also have "\<dots> = map (\<lambda>k. k mod 1000000) (sn # Suc sn # [sn + 2..<sn + 2 + 2 * length r])"
    using 2 by simp
  also have "sn # Suc sn # [sn + 2..<sn + 2 + 2 * length r] = [sn..<sn + 2 * Suc (length r)]"
    by (rule upt_two[symmetric])
  finally show ?case by simp
qed

lemma write_record_serials:
  assumes inv: "shells_invariant shells" and ne: "shells \<noteq> []"
  shows "record_serials (file_lines (write_ssim_with_segments e all_legs shells))
         = map (\<lambda>k. k mod 1000000) [3..<4 + 2 * length (concat (map snd shells))]"
proof -
  obtain vs prs where r:
    "write_ssim_with_segments e all_legs shells
       = Some (Inr (header_block e all_legs @ pair_lines prs 3 @ replicate 4 zero_line
                    @ [type5_record (today_date e) (3 + 2 * length prs)]
                    @ replicate 14 zero_line, vs))"
    "distinct vs" "set vs = fst ` set shells"
    "map fst prs = concat (map (shell_legs shells) vs)"
    using write_structure[OF inv ne] by blast
  have "mset (map fst prs) = mset (concat (map snd shells))"
    using visited_legs_perm[OF r(2,3)] inv r(4) by (simp add: shells_invariant_def)
  then have "size (mset (map fst prs)) = size (mset (concat (map snd shells)))" by simp
  then have len: "length prs = length (concat (map snd shells))" by simp
  have "4 + 2 * length prs = Suc (3 + 2 * length prs)" by simp
  then have "[3..<4 + 2 * length prs] = [3..<3 + 2 * length prs] @ [3 + 2 * length prs]"
    by (simp only: upt_Suc_append le_add1)
  then show ?thesis
    unfolding r(1) file_lines_def len[symmetric]
    by (simp add: record_serials_append record_serials_header record_serials_zeros
          record_serials_pairs record_serials_Cons type5_fields serial_field_value)
qed

section \<open>C4: record serials\<close>

lemma map_mod_not_id:
  assumes "1000000 \<le> 3 + 2 * n"
  shows "map (\<lambda>k. k mod 1000000) [3..<4 + 2 * n] \<noteq> [3..<4 + 2 * (n::nat)]"
proof
  assume eq: "map (\<lambda>k. k mod 1000000) [3..<4 + 2 * n] = [3..<4 + 2 * n]"
  have "map (\<lambda>k. k mod 1000000) [3..<4 + 2 * n] = map id [3..<4 + 2 * n]"
    using eq by simp
  then have "\<forall>x \<in> set [3..<4 + 2 * n]. x mod 1000000 = id x"
    by (simp only: map_eq_conv)
  moreover have "3 + 2 * n \<in> set [3..<4 + 2 * n]" by simp
  ultimately have "(3 + 2 * n) mod 1000000 = 3 + 2 * n" by (metis id_apply)
  then have "3 + 2 * n < 1000000"
    by (metis mod_less_divisor zero_less_numeral)
  with assms show False by simp
qed

lemma shells_invariant_big: "shells_invariant big_shells" "big_shells \<noteq> []"
  by (simp_all add: shells_invariant_def big_shells_def)

lemma legs_big: "length (concat (map snd big_shells)) = 499999"
  by (simp add: big_shells_def)

text \<open>
  C4, as stated, fails on a file of 499999 legs: the counter reaches 1000001, and the six
  characters of the serial field hold only its last six digits, so the serials read from the
  records are not the contiguous sequence from 3 to 3 plus twice the number of legs.
\<close>

theorem serial_wraps_counterexample:
  "record_serials (file_lines (write_ssim_with_segments example_env
       (concat (map snd big_shells)) big_shells))
   \<noteq> [3..<4 + 2 * length (concat (map snd big_shells))]"
  unfolding write_record_serials[OF shells_invariant_big] legs_big
  by (rule map_mod_not_id) simp

text \<open>
  C4 (amended). For every Shells map the reader can build, with at least one Shell, the
  serials in positions 195 to 200 of the Type-3, Type-4 and Type-5 records, in file order,
  are the counter values 3, 4, ..., 3 + 2 * legs, each reduced to its last six decimal digits:
  the counter starts at 3, advances by one after each Type-3 and each Type-4 record, the
  header and filler lines carry no serial, and the trailer carries the final value. While
  the final value is below 1000000 they are exactly the contiguous ascending sequence.
\<close>

theorem record_serials_of_file:
  assumes "shells_invariant shells" and "shells \<noteq> []"
  shows "record_serials (file_lines (write_ssim_with_segments e all_legs shells))
           = map (\<lambda>k. k mod 1000000) [3..<4 + 2 * length (concat (map snd shells))]
       \<and> (3 + 2 * length (concat (map snd shells)) < 1000000 \<longrightarrow>
            record_serials (file_lines (write_ssim_with_segments e all_legs shells))
              = [3..<4 + 2 * length (concat (map snd shells))])"
proof -
  let ?n = "length (concat (map snd shells))"
  have a: "record_serials (file_lines (write_ssim_with_segments e all_legs shells))
           = map (\<lambda>k. k mod 1000000) [3..<4 + 2 * ?n]"
    using assms by (rule write_record_serials)
  have "3 + 2 * ?n < 1000000 \<Longrightarrow> map (\<lambda>k. k mod 1000000) [3..<4 + 2 * ?n] = [3..<4 + 2 * ?n]"
    by (rule map_idI) simp
  with a show ?thesis by simp
qed

lemma shells_invariant_example: "shells_invariant example_shells" "example_shells \<noteq> []"
  by (simp_all add: shells_invariant_def example_shells_def)

theorem record_serials_of_file_witness:
  "shells_invariant example_shells \<and> example_shells \<noteq> [] \<and>
   record_serials (file_lines (write_ssim_with_segments example_env [] example_shells))
     = [3, 4, 5, 6, 7]"
proof -
  have "length (concat (map snd example_shells)) = 2" by (simp add: example_shells_def)
  moreover have "[3..<8] = [3, 4, 5, 6, 7::nat]" by (simp add: upt_rec)
  ultimately show ?thesis
    using record_serials_of_file[OF shells_invariant_example, of example_env "[]"]
      shells_invariant_example by simp
qed

section \<open>C6: the offset estimator\<close>

lemma write_structure_legs:
  assumes inv: "shells_invariant shells" and ne: "shells \<noteq> []"
  shows "\<exists>vs prs. write_ssim_with_segments e all_legs shells
           = Some (Inr (header_block e all_legs @ pair_lines prs 3 @ replicate 4 zero_line
                        @ [type5_record (today_date e) (3 + 2 * length prs)]
                        @ replicate 14 zero_line, vs))
         \<and> distinct vs \<and> set vs = fst ` set shells \<and> length vs = length shells
         \<and> map fst prs = concat (map (shell_legs shells) vs)
         \<and> mset (map fst prs) = mset (concat (map snd shells))"
proof -
  obtain vs prs where r:
    "write_ssim_with_segments e all_legs shells
       = Some (Inr (header_block e all_legs @ pair_lines prs 3 @ replicate 4 zero_line
                    @ [type5_record (today_date e) (3 + 2 * length prs)]
                    @ replicate 14 zero_line, vs))"
    "distinct vs" "set vs = fst ` set shells"
    "map fst prs = concat (map (shell_legs shells) vs)"
    using write_structure[OF inv ne] by blast
  have dist: "distinct (map fst shells)" using inv by (simp add: shells_invariant_def)
  have "mset (map fst prs) = mset (concat (map snd shells))"
    using visited_legs_perm[OF r(2,3) dist] r(4) by simp
  moreover have "length vs = length shells"
    using distinct_card[OF r(2)] r(3) card_keys[OF dist] by simp
  ultimately show ?thesis using r by blast
qed

text \<open>
  C6. For every airport code and every reference date the static estimator returns what
  the specification describes: daylight saving is in effect exactly in the months 3 to 10;
  the Eastern set gives -4 and -5, the Central set -5 and -6, the Mountain set -6 and -7
  with PHX at -7 throughout, the Pacific set -7 and -8, and any other code follows the
  Eastern rule. The estimator has no failing branch.
\<close>

theorem estimator_refines_specification:
  "estimate_us_timezone_offset airport_code reference_date = spec_offset airport_code reference_date"
  unfolding estimate_us_timezone_offset_def spec_offset_def spec_zone_def spec_dst_in_effect_def
    Let_def eastern_airports_def central_airports_def mountain_airports_def pacific_airports_def
  by auto

section \<open>C9 and C10: a leg without a departure date-time, and truncation\<close>

lemma pair_lines_mem:
  "(leg, onward) \<in> set prs \<Longrightarrow> \<exists>k. type3_record leg onward k \<in> set (pair_lines prs sn)"
proof (induction prs sn rule: pair_lines.induct)
  case (1 sn)
  then show ?case by simp
next
  case (2 l on r sn)
  show ?case
  proof (cases "(leg, onward) = (l, on)")
    case True
    then show ?thesis by auto
  next
    case False
    with 2 obtain k where "type3_record leg onward k \<in> set (pair_lines r (sn + 2))" by auto
    then show ?thesis by auto
  qed
qed

lemma shell_legs_member:
  "distinct (map fst shells) \<Longrightarrow> (sid, legs) \<in> set shells \<Longrightarrow> shell_legs shells sid = legs"
  by (simp add: shell_legs_def)

text \<open>
  C9. A leg whose departure date-time is null is still written: the file holds a Type-3
  record of the leg, and in every Type-3 record of such a leg positions 29 to 35 are six
  blanks and the digit 1, and positions 15 to 28 are fourteen blanks.
\<close>

theorem null_departure_record:
  assumes "shells_invariant shells" and "(sid, legs) \<in> set shells" and "leg \<in> set legs"
    and "Dept_DateTime leg = None"
  shows "\<exists>lines vs. write_ssim_with_segments e all_legs shells = Some (Inr (lines, vs))
           \<and> (\<exists>onward sn. type3_record leg onward sn \<in> set lines)
           \<and> (\<forall>onward sn. field (type3_record leg onward sn) 29 35 = ''      1''
                  \<and> field (type3_record leg onward sn) 15 28 = replicate 14 CHR '' '')"
proof -
  have ne: "shells \<noteq> []" using assms(2) by auto
  have dist: "distinct (map fst shells)" using assms(1) by (simp add: shells_invariant_def)
  obtain vs prs where r:
    "write_ssim_with_segments e all_legs shells
       = Some (Inr (header_block e all_legs @ pair_lines prs 3 @ replicate 4 zero_line
                    @ [type5_record (today_date e) (3 + 2 * length prs)]
                    @ replicate 14 zero_line, vs))"
    "set vs = fst ` set shells"
    "map fst prs = concat (map (shell_legs shells) vs)"
    using write_structure[OF assms(1) ne] by blast
  have "sid \<in> set vs" using r(2) assms(2) by force
  moreover have "shell_legs shells sid = legs" using dist assms(2) by (rule shell_legs_member)
  ultimately have "leg \<in> set (concat (map (shell_legs shells) vs))" using assms(3) by auto
  then have "leg \<in> fst ` set prs" using r(3) by (metis set_map)
  then obtain onward where "(leg, onward) \<in> set prs" by auto
  then obtain k where "type3_record leg onward k \<in> set (pair_lines prs 3)"
    using pair_lines_mem by blast
  then have emitted: "\<exists>onward sn. type3_record leg onward sn
      \<in> set (header_block e all_legs @ pair_lines prs 3 @ replicate 4 zero_line
             @ [type5_record (today_date e) (3 + 2 * length prs)] @ replicate 14 zero_line)"
    by auto
  have "pad_left ''1'' 7 CHR '' '' = ''      1''" by code_simp
  moreover have "pad_right (ljust [] 7 @ ljust [] 7) 14 = replicate 14 CHR '' ''" by code_simp
  ultimately have fields: "\<forall>onward sn. field (type3_record leg onward sn) 29 35 = ''      1''
                  \<and> field (type3_record leg onward sn) 15 28 = replicate 14 CHR '' ''"
    using assms(4) by (simp add: type3_fields format_ssim_date_def)
  show ?thesis using r(1) emitted fields by blast
qed

lemma example_leg_in_shells:
  "(''1'', [example_leg ''1'' ''1'' ''100'' ''JFK'' ''ATL'']) \<in> set example_shells"
  "Dept_DateTime (example_leg ''1'' ''1'' ''100'' ''JFK'' ''ATL'') = None"
  by (simp_all add: example_shells_def example_leg_def)

theorem null_departure_record_witness:
  "shells_invariant example_shells
   \<and> (''1'', [example_leg ''1'' ''1'' ''100'' ''JFK'' ''ATL'']) \<in> set example_shells
   \<and> Dept_DateTime (example_leg ''1'' ''1'' ''100'' ''JFK'' ''ATL'') = None
   \<and> (\<exists>lines vs. write_ssim_with_segments example_env [] example_shells = Some (Inr (lines, vs))
         \<and> (\<exists>onward sn. type3_record (example_leg ''1'' ''1'' ''100'' ''JFK'' ''ATL'') onward sn
                \<in> set lines)
         \<and> (\<forall>onward sn.
               field (type3_record (example_leg ''1'' ''1'' ''100'' ''JFK'' ''ATL'') onward sn) 29 35
                 = ''      1''
               \<and> field (type3_record (example_leg ''1'' ''1'' ''100'' ''JFK'' ''ATL'') onward sn) 15 28
                 = replicate 14 CHR '' ''))"
  using null_departure_record[of example_shells "''1''"
      "[example_leg ''1'' ''1'' ''100'' ''JFK'' ''ATL'']"
      "example_leg ''1'' ''1'' ''100'' ''JFK'' ''ATL''" example_env "[]"]
    shells_invariant_example(1) example_leg_in_shells
  by simp

text \<open>
  C10. A string longer than its slot is cut at the end in a left-aligned field (the first
  \<open>n\<close> characters stay) and at the front in a right-aligned field (the last \<open>n\<close>
  characters stay). In the Type-3 record positions 3 to 5 are the airline code through the
  left-aligned cut and positions 6 to 9 the flight number through the right-aligned cut, so
  a flight number of more than four characters shows its last four and an airline code of
  more than three characters its first three.
\<close>

theorem truncation_direction:
  assumes "0 < n" and "n < length s"
  shows "pad_right s n = take n s \<and> pad_left s n fill = drop (length s - n) s
       \<and> field (type3_record leg onward sn) 3 5 = pad_right (leg_get leg ''Aln'' ''DL'') 3
       \<and> field (type3_record leg onward sn) 6 9 = pad_left (leg_get leg ''Flt Num'' []) 4 CHR '' ''
       \<and> (4 < length (leg_get leg ''Flt Num'' []) \<longrightarrow>
            field (type3_record leg onward sn) 6 9
              = drop (length (leg_get leg ''Flt Num'' []) - 4) (leg_get leg ''Flt Num'' []))
       \<and> (3 < length (leg_get leg ''Aln'' ''DL'') \<longrightarrow>
            field (type3_record leg onward sn) 3 5 = take 3 (leg_get leg ''Aln'' ''DL''))"
  using assms
  by (simp add: type3_fields pad_right_def pad_left_def ljust_def rjust_def last_chars_def)

theorem truncation_direction_witness:
  "(0::nat) < 4 \<and> 4 < length ''12345''
   \<and> pad_right ''12345'' 4 = ''1234'' \<and> pad_left ''12345'' 4 CHR '' '' = ''2345''
   \<and> field (type3_record long_fields_leg None 3) 6 9 = ''2345''
   \<and> field (type3_record long_fields_leg None 3) 3 5 = ''DAL''"
  using truncation_direction[of 4 "''12345''" "CHR '' ''" long_fields_leg None 3]
  by (simp add: long_fields_leg_def leg_get_def row_get_def pad_right_def pad_left_def
        ljust_def rjust_def last_chars_def)

section \<open>C8 and C3: the clock, and the onward leg across Shells\<close>

lemma operation_dates_local:
  "operation_dates e1 legs CHR ''L'' = operation_dates e2 legs CHR ''L''"
  by (induction legs)
     (auto simp: convert_date_to_utc_if_needed_def split: option.splits)

lemma operation_dates_empty:
  "(operation_dates e legs z = []) = (\<forall>leg \<in> set legs. Dept_DateTime leg = None \<and> Arvl_DateTime leg = None)"
  by (induction legs) (auto split: option.splits)

lemma strftime_same_date: "same_date a b \<Longrightarrow> strftime_dby a = strftime_dby b"
  by (simp add: same_date_def strftime_dby_def)

lemma plus_one_day_same_date: "same_date a b \<Longrightarrow> same_date (plus_one_day a) (plus_one_day b)"
  by (simp add: same_date_def plus_one_day_def)

lemma type2_header_dates:
  "strftime_dby a = strftime_dby a' \<Longrightarrow> strftime_dby b = strftime_dby b' \<Longrightarrow>
   strftime_dby c = strftime_dby c' \<Longrightarrow> type2_header z a b c = type2_header z a' b' c'"
  by (simp add: type2_header_def)

lemma type5_record_date:
  "strftime_dby c = strftime_dby c' \<Longrightarrow> type5_record c sn = type5_record c' sn"
  by (simp add: type5_record_def)

lemma operation_range_same:
  assumes "(\<forall>leg \<in> set all_legs. Dept_DateTime leg = None \<and> Arvl_DateTime leg = None)
             \<longrightarrow> same_date (fallback_now e1) (fallback_now e2)"
  shows "strftime_dby (fst (find_operation_date_range e1 all_legs CHR ''L''))
           = strftime_dby (fst (find_operation_date_range e2 all_legs CHR ''L''))
       \<and> strftime_dby (snd (find_operation_date_range e1 all_legs CHR ''L''))
           = strftime_dby (snd (find_operation_date_range e2 all_legs CHR ''L''))"
proof (cases "operation_dates e1 all_legs CHR ''L''")
  case Nil
  then have n2: "operation_dates e2 all_legs CHR ''L'' = []"
    using operation_dates_local[of e1 all_legs e2] by simp
  have "same_date (fallback_now e1) (fallback_now e2)"
    using assms Nil operation_dates_empty by blast
  then show ?thesis
    using Nil n2
    by (simp add: find_operation_date_range_def strftime_same_date plus_one_day_same_date)
next
  case (Cons d ds)
  then have "operation_dates e2 all_legs CHR ''L'' = d # ds"
    using operation_dates_local[of e1 all_legs e2] by simp
  with Cons show ?thesis by (simp add: find_operation_date_range_def)
qed

text \<open>
  C8, as stated, fails: the generation date read from the clock is written into the Type-2
  header and the Type-5 trailer, so the same legs and Shells encoded on two different days
  give two different files.
\<close>

theorem encoding_depends_on_the_clock:
  "write_ssim_with_segments example_env [] example_shells
   \<noteq> write_ssim_with_segments example_env_next_day [] example_shells"
  by code_simp

text \<open>
  C8 (amended). The file is a function of the legs, the Shells and the calendar date of the
  clock: two runs on the same legs and Shells whose clock readings fall on the same
  calendar date give identical results. The reading inside the operation date range only
  matters when no leg has a departure or arrival date-time.
\<close>

theorem encoding_deterministic_on_one_day:
  assumes "same_date (today_date e1) (today_date e2)"
    and "(\<forall>leg \<in> set all_legs. Dept_DateTime leg = None \<and> Arvl_DateTime leg = None)
           \<longrightarrow> same_date (fallback_now e1) (fallback_now e2)"
  shows "write_ssim_with_segments e1 all_legs shells = write_ssim_with_segments e2 all_legs shells"
proof -
  have t: "strftime_dby (today_date e1) = strftime_dby (today_date e2)"
    using assms(1) by (rule strftime_same_date)
  have h: "type2_header CHR ''L'' (fst (find_operation_date_range e1 all_legs CHR ''L''))
             (snd (find_operation_date_range e1 all_legs CHR ''L'')) (today_date e1)
         = type2_header CHR ''L'' (fst (find_operation_date_range e2 all_legs CHR ''L''))
             (snd (find_operation_date_range e2 all_legs CHR ''L'')) (today_date e2)"
    using operation_range_same[OF assms(2)] t by (intro type2_header_dates) simp_all
  have tr: "\<And>sn. type5_record (today_date e1) sn = type5_record (today_date e2) sn"
    using t by (rule type5_record_date)
  show ?thesis
    unfolding write_ssim_with_segments_def Let_def h tr ..
qed

lemma example_envs_same_day:
  "same_date (today_date example_env) (today_date example_env_same_day)"
  "same_date (fallback_now example_env) (fallback_now example_env_same_day)"
  by (simp_all add: same_date_def example_env_def example_env_same_day_def)

theorem encoding_deterministic_on_one_day_witness:
  "same_date (today_date example_env) (today_date example_env_same_day)
   \<and> same_date (fallback_now example_env) (fallback_now example_env_same_day)
   \<and> write_ssim_with_segments example_env [] example_shells
       = write_ssim_with_segments example_env_same_day [] example_shells"
  using encoding_deterministic_on_one_day[of example_env example_env_same_day "[]" example_shells]
    example_envs_same_day by simp

text \<open>
  C3, at a rotation whose \<^verbatim>\<open>Line Num\<close> is the empty string. The Shell with the empty id
  is unprocessed and its first leg leaves from ATL, so \<^verbatim>\<open>find_connecting_shell\<close> returns
  its id; the caller tests the id for truth, the empty string is false, and the Type-3
  record of the JFK to ATL leg (the eleventh line of the file) has blank onward fields,
  where the claim asks for the airline and flight number of the connecting leg.
\<close>

theorem onward_blank_for_empty_rotation_id:
  "find_connecting_shell empty_id_shells {''1''} ''ATL'' = Some []
   \<and> field (file_lines (write_ssim_with_segments example_env [] empty_id_shells) ! 10) 138 144
       = ''       ''
   \<and> field (type3_record (example_leg ''1'' ''1'' ''100'' ''JFK'' ''ATL'')
              (Some (example_leg [] ''1'' ''200'' ''ATL'' ''JFK'')) 3) 138 144
       = ''DL  200''"
  by code_simp

lemma onward_of_two_rotations:
  "field (file_lines (write_ssim_with_segments example_env [] example_shells) ! 10) 138 140 = ''DL ''
   \<and> field (file_lines (write_ssim_with_segments example_env [] example_shells) ! 10) 141 144 = '' 200''
   \<and> field (file_lines (write_ssim_with_segments example_env [] example_shells) ! 10) 37 39 = ''JFK''
   \<and> field (file_lines (write_ssim_with_segments example_env [] example_shells) ! 10) 55 57 = ''ATL''"
  by code_simp

section \<open>The reader\<close>

lemma dict_append_keys: "set (map fst (dict_append s k v)) = insert k (set (map fst s))"
  by (induction s k v rule: dict_append.induct) auto

lemma dict_append_distinct:
  "distinct (map fst s) \<Longrightarrow> distinct (map fst (dict_append s k v))"
proof (induction s k v rule: dict_append.induct)
  case (1 k v)
  then show ?case by simp
next
  case (2 k' vs rest k v)
  then show ?case using dict_append_keys[of rest k v] by auto
qed

lemma dict_append_nonempty:
  "\<forall>kv \<in> set s. snd kv \<noteq> [] \<Longrightarrow> \<forall>kv \<in> set (dict_append s k v). snd kv \<noteq> []"
  by (induction s k v rule: dict_append.induct) auto

lemma dict_append_mset:
  "mset (concat (map snd (dict_append s k v))) = mset (concat (map snd s)) + {#v#}"
  by (induction s k v rule: dict_append.induct) auto

lemma dict_append_invariant: "shells_invariant s \<Longrightarrow> shells_invariant (dict_append s k v)"
  unfolding shells_invariant_def
  using dict_append_distinct[of s k v] dict_append_nonempty[of s k v] by blast

lemma read_row_cells: "read_row offs r = Inr leg \<Longrightarrow> cells leg = r"
  by (auto simp: read_row_def split: option.splits)

lemma read_row_ok:
  assumes "required_columns \<subseteq> dom r"
  shows "\<exists>leg. read_row offs r = Inr leg \<and> cells leg = r
           \<and> Dept_DateTime leg = combine_date_time (parse_flexible_date (row_get r ''Dept Date'' []))
                                    (Dept_Time leg)
           \<and> Arvl_DateTime leg = combine_date_time (parse_flexible_date (row_get r ''Arvl Date'' []))
                                    (Arvl_Time leg)"
proof -
  have "''Dept Time'' \<in> dom r" "''Arvl Time'' \<in> dom r" "''Dept Sta'' \<in> dom r" "''Arvl Sta'' \<in> dom r"
    using assms by (auto simp: required_columns_def)
  then obtain a b c d where "r ''Dept Time'' = Some a" "r ''Arvl Time'' = Some b"
    "r ''Dept Sta'' = Some c" "r ''Arvl Sta'' = Some d" by auto
  then show ?thesis by (simp add: read_row_def)
qed

lemma read_rows_result:
  assumes "read_rows offs rows legs0 shells0 = Inr (legs, shells)"
    and "shells_invariant shells0" and "mset (concat (map snd shells0)) = mset legs0"
  shows "shells_invariant shells \<and> mset (concat (map snd shells)) = mset legs
         \<and> map cells legs = map cells legs0 @ rows"
  using assms
proof (induction rows arbitrary: legs0 shells0)
  case Nil
  then show ?case by simp
next
  case (Cons r rows)
  from Cons.prems(1) obtain leg sid where l: "read_row offs r = Inr leg" "r ''Line Num'' = Some sid"
    "read_rows offs rows (legs0 @ [leg]) (dict_append shells0 sid leg) = Inr (legs, shells)"
    by (auto split: sum.splits option.splits)
  have "shells_invariant (dict_append shells0 sid leg)"
    using Cons.prems(2) by (rule dict_append_invariant)
  moreover have "mset (concat (map snd (dict_append shells0 sid leg))) = mset (legs0 @ [leg])"
    using Cons.prems(3) by (simp add: dict_append_mset)
  ultimately have "shells_invariant shells \<and> mset (concat (map snd shells)) = mset legs
         \<and> map cells legs = map cells (legs0 @ [leg]) @ rows"
    using Cons.IH[OF l(3)] by blast
  then show ?case using read_row_cells[OF l(1)] by simp
qed


lemma sort_shell_result:
  "sort_shell shell = Inr s \<Longrightarrow> mset s = mset shell \<and> sorted (map (\<lambda>x. the (leg_seq_key x)) s)"
  by (auto simp: sort_shell_def split: if_splits)

lemma sort_shells_result:
  "sort_shells shells = Inr shells' \<Longrightarrow>
     map fst shells' = map fst shells
     \<and> mset (concat (map snd shells')) = mset (concat (map snd shells))
     \<and> (\<forall>kv \<in> set shells. snd kv \<noteq> [] ) = (\<forall>kv \<in> set shells'. snd kv \<noteq> [])
     \<and> (\<forall>kv \<in> set shells'. sorted (map (\<lambda>x. the (leg_seq_key x)) (snd kv)))"
proof (induction shells arbitrary: shells')
  case Nil
  then show ?case by simp
next
  case (Cons kv shells)
  obtain k shell where kv: "kv = (k, shell)" by (cases kv)
  from Cons.prems obtain s rest where r: "sort_shell shell = Inr s" "sort_shells shells = Inr rest"
    "shells' = (k, s) # rest"
    by (auto simp: kv split: sum.splits)
  have m: "mset s = mset shell" "sorted (map (\<lambda>x. the (leg_seq_key x)) s)"
    using sort_shell_result[OF r(1)] by simp_all
  have "(s = []) = (shell = [])" using m(1) by (metis mset_zero_iff)
  with Cons.IH[OF r(2)] m show ?case by (simp add: kv r(3))
qed


lemma sort_shells_error: "sort_shells shells = Inl e \<Longrightarrow> e = ValueError"
  by (induction shells arbitrary: e) (auto simp: sort_shell_def split: sum.splits if_splits)

lemma sort_shells_keys:
  "sort_shells shells = Inr shells' \<Longrightarrow> kv \<in> set shells \<Longrightarrow> x \<in> set (snd kv) \<Longrightarrow>
   leg_seq_key x \<noteq> None"
proof (induction shells arbitrary: shells')
  case Nil
  then show ?case by simp
next
  case (Cons a shells)
  obtain k shell where a: "a = (k, shell)" by (cases a)
  from Cons.prems(1) obtain s rest where r: "sort_shell shell = Inr s" "sort_shells shells = Inr rest"
    by (auto simp: a split: sum.splits)
  from r(1) have ok: "\<forall>y \<in> set shell. leg_seq_key y \<noteq> None"
    by (auto simp: sort_shell_def split: if_splits)
  show ?case
  proof (cases "kv = a")
    case True
    with ok Cons.prems(3) show ?thesis by (simp add: a)
  next
    case False
    with Cons.prems(2) have "kv \<in> set shells" by simp
    then show ?thesis using Cons.IH[OF r(2) _ Cons.prems(3)] by simp
  qed
qed

lemma sort_shells_fails:
  assumes "kv \<in> set shells" and "x \<in> set (snd kv)" and "leg_seq_key x = None"
  shows "sort_shells shells = Inl ValueError"
proof (cases "sort_shells shells")
  case (Inl e)
  then show ?thesis using sort_shells_error by blast
next
  case (Inr s)
  then show ?thesis using sort_shells_keys[OF Inr assms(1,2)] assms(3) by simp
qed

lemma read_low_csv_result:
  assumes "read_low_csv offs rows = Inr (legs, shells)"
  shows "shells_invariant shells \<and> mset (concat (map snd shells)) = mset legs
         \<and> map cells legs = rows
         \<and> (\<forall>kv \<in> set shells. sorted (map (\<lambda>x. the (leg_seq_key x)) (snd kv)))"
proof -
  from assms obtain shells0 where r: "read_rows offs rows [] [] = Inr (legs, shells0)"
    "sort_shells shells0 = Inr shells"
    by (auto simp: read_low_csv_def split: sum.splits)
  have a: "shells_invariant shells0" "mset (concat (map snd shells0)) = mset legs"
    "map cells legs = rows"
    using read_rows_result[OF r(1)] by (simp_all add: shells_invariant_def)
  from sort_shells_result[OF r(2)] a show ?thesis
    by (simp add: shells_invariant_def)
qed

section \<open>C1: the leg sequence number\<close>









lemma example_rows_sorted:
  "map_sum id (\<lambda>(legs, shells). map (\<lambda>kv. (fst kv, map (\<lambda>l. leg_get l ''Flt Num'' []) (snd kv))) shells)
     (read_low_csv Map.empty example_rows) = Inr [(''1'', [''300'', ''100''])]"
  by code_simp

section \<open>C7: the date parser\<close>

lemma try_formats_Some:
  "(try_formats s fmts = Some dt)
   = (\<exists>i < length fmts. strptime s (fmts ! i) = Some dt \<and> (\<forall>j < i. strptime s (fmts ! j) = None))"
proof (induction fmts)
  case Nil
  then show ?case by simp
next
  case (Cons f fmts)
  show ?case
  proof (cases "strptime s f")
    case None
    have "(\<exists>i < length (f # fmts). strptime s ((f # fmts) ! i) = Some dt
              \<and> (\<forall>j < i. strptime s ((f # fmts) ! j) = None))
          = (\<exists>i < length fmts. strptime s (fmts ! i) = Some dt
              \<and> (\<forall>j < i. strptime s (fmts ! j) = None))" (is "?L = ?R")
    proof
      assume ?L
      then obtain i where i: "i < length (f # fmts)" "strptime s ((f # fmts) ! i) = Some dt"
        "\<forall>j < i. strptime s ((f # fmts) ! j) = None" by blast
      with None obtain i' where i': "i = Suc i'" by (cases i) auto
      have "\<forall>j < i'. strptime s (fmts ! j) = None"
        using i(3) i' by (metis Suc_less_eq nth_Cons_Suc)
      with i i' show ?R by auto
    next
      assume ?R
      then obtain i where i: "i < length fmts" "strptime s (fmts ! i) = Some dt"
        "\<forall>j < i. strptime s (fmts ! j) = None" by blast
      have "\<forall>j < Suc i. strptime s ((f # fmts) ! j) = None"
        using i(3) None by (auto simp: nth_Cons split: nat.splits)
      with i show ?L by (intro exI[of _ "Suc i"]) simp
    qed
    with None Cons show ?thesis by simp
  next
    case (Some d)
    have "(\<exists>i < length (f # fmts). strptime s ((f # fmts) ! i) = Some dt
              \<and> (\<forall>j < i. strptime s ((f # fmts) ! j) = None)) = (d = dt)" (is "?L = _")
    proof
      assume ?L
      then obtain i where i: "strptime s ((f # fmts) ! i) = Some dt"
        "\<forall>j < i. strptime s ((f # fmts) ! j) = None" by blast
      with Some have "i = 0" by (cases i) auto
      with i Some show "d = dt" by simp
    next
      assume "d = dt"
      with Some show ?L by (intro exI[of _ 0]) simp
    qed
    with Some show ?thesis by simp
  qed
qed

lemma try_formats_None:
  "(try_formats s fmts = None) = (\<forall>fmt \<in> set fmts. strptime s fmt = None)"
  by (induction fmts) (auto split: option.splits)

lemma read_rows_step:
  assumes "required_columns \<subseteq> dom r"
  shows "\<exists>leg line. read_row offs r = Inr leg \<and> r ''Line Num'' = Some line
           \<and> read_rows offs (r # rows) all_legs shells
               = read_rows offs rows (all_legs @ [leg]) (dict_append shells line leg)"
proof -
  obtain leg where l: "read_row offs r = Inr leg" using read_row_ok[OF assms] by blast
  have "''Line Num'' \<in> dom r" using assms by (auto simp: required_columns_def)
  then obtain line where "r ''Line Num'' = Some line" by auto
  with l show ?thesis by simp
qed

text \<open>
  C7. The date parser tries the eight formats \<^verbatim>\<open>%d%b%y\<close>, \<^verbatim>\<open>%m/%d/%Y\<close>,
  \<^verbatim>\<open>%m/%d/%y\<close>, \<^verbatim>\<open>%d-%b-%y\<close>, \<^verbatim>\<open>%d/%m/%Y\<close>, \<^verbatim>\<open>%Y-%m-%d\<close>, \<^verbatim>\<open>%d%b%Y\<close>,
  \<^verbatim>\<open>%m-%d-%Y\<close> in this order on the stripped string and returns the first successful
  parse; an empty or all-whitespace string gives no value; a string no format matches gives
  no value as well, and then the reader keeps the row, with a null date-time on that side.
\<close>

theorem date_parser_first_match:
  "date_formats = [''%d%b%y'', ''%m/%d/%Y'', ''%m/%d/%y'', ''%d-%b-%y'',
                   ''%d/%m/%Y'', ''%Y-%m-%d'', ''%d%b%Y'', ''%m-%d-%Y'']
   \<and> (strip s = [] \<longrightarrow> parse_flexible_date s = None)
   \<and> ((parse_flexible_date s = Some dt)
        = (strip s \<noteq> [] \<and> (\<exists>i < 8. strptime (strip s) (date_formats ! i) = Some dt
               \<and> (\<forall>j < i. strptime (strip s) (date_formats ! j) = None))))
   \<and> ((parse_flexible_date s = None)
        = (strip s = [] \<or> (\<forall>fmt \<in> set date_formats. strptime (strip s) fmt = None)))
   \<and> (required_columns \<subseteq> dom r \<and> parse_flexible_date (row_get r ''Dept Date'' []) = None \<longrightarrow>
        (\<exists>leg line. read_row offs r = Inr leg \<and> cells leg = r \<and> Dept_DateTime leg = None
           \<and> r ''Line Num'' = Some line
           \<and> read_rows offs (r # rows) all_legs shells
               = read_rows offs rows (all_legs @ [leg]) (dict_append shells line leg)))"
proof -
  have len: "length date_formats = 8" by (simp add: date_formats_def)
  have a: "strip s = [] \<longrightarrow> parse_flexible_date s = None"
    by (simp add: parse_flexible_date_def)
  have e: "s = [] \<Longrightarrow> strip s = []" by (simp add: strip_def)
  have b: "(parse_flexible_date s = Some dt)
        = (strip s \<noteq> [] \<and> (\<exists>i < 8. strptime (strip s) (date_formats ! i) = Some dt
               \<and> (\<forall>j < i. strptime (strip s) (date_formats ! j) = None)))"
    using e try_formats_Some[of "strip s" date_formats dt]
    by (auto simp: parse_flexible_date_def len)
  have c: "(parse_flexible_date s = None)
        = (strip s = [] \<or> (\<forall>fmt \<in> set date_formats. strptime (strip s) fmt = None))"
    using e by (auto simp: parse_flexible_date_def try_formats_None)
  have d: "required_columns \<subseteq> dom r \<and> parse_flexible_date (row_get r ''Dept Date'' []) = None \<longrightarrow>
        (\<exists>leg line. read_row offs r = Inr leg \<and> cells leg = r \<and> Dept_DateTime leg = None
           \<and> r ''Line Num'' = Some line
           \<and> read_rows offs (r # rows) all_legs shells
               = read_rows offs rows (all_legs @ [leg]) (dict_append shells line leg))"
  proof
    assume h: "required_columns \<subseteq> dom r \<and> parse_flexible_date (row_get r ''Dept Date'' []) = None"
    then obtain leg line where l: "read_row offs r = Inr leg" "r ''Line Num'' = Some line"
      "read_rows offs (r # rows) all_legs shells
         = read_rows offs rows (all_legs @ [leg]) (dict_append shells line leg)"
      using read_rows_step by blast
    obtain leg' where l': "read_row offs r = Inr leg'" "cells leg' = r"
      "Dept_DateTime leg' = combine_date_time (parse_flexible_date (row_get r ''Dept Date'' []))
                                    (Dept_Time leg')"
      using read_row_ok[of r offs] h by blast
    with l(1) have "leg' = leg" by simp
    with l' h have "cells leg = r" "Dept_DateTime leg = None"
      by (simp_all add: combine_date_time_def)
    with l show "\<exists>leg line. read_row offs r = Inr leg \<and> cells leg = r \<and> Dept_DateTime leg = None
           \<and> r ''Line Num'' = Some line
           \<and> read_rows offs (r # rows) all_legs shells
               = read_rows offs rows (all_legs @ [leg]) (dict_append shells line leg)"
      by blast
  qed
  show ?thesis using a b c d by (simp add: date_formats_def)
qed

lemma unparsable_row_facts:
  "strip ''  '' = []"
  "required_columns \<subseteq> dom (example_row ''1'' ''1'' ''100'' ''JFK'' ''ATL'' ''not-a-date'')"
  "parse_flexible_date (row_get (example_row ''1'' ''1'' ''100'' ''JFK'' ''ATL'' ''not-a-date'')
      ''Dept Date'' []) = None"
proof -
  show "strip ''  '' = []" by code_simp
  show "required_columns \<subseteq> dom (example_row ''1'' ''1'' ''100'' ''JFK'' ''ATL'' ''not-a-date'')"
    by (simp add: example_row_def required_columns_def dom_map_of_conv_image_fst)
  show "parse_flexible_date (row_get (example_row ''1'' ''1'' ''100'' ''JFK'' ''ATL'' ''not-a-date'')
      ''Dept Date'' []) = None" by code_simp
qed

theorem date_parser_first_match_witness:
  "strip ''  '' = [] \<and> parse_flexible_date ''  '' = None
   \<and> required_columns \<subseteq> dom (example_row ''1'' ''1'' ''100'' ''JFK'' ''ATL'' ''not-a-date'')
   \<and> parse_flexible_date (row_get (example_row ''1'' ''1'' ''100'' ''JFK'' ''ATL'' ''not-a-date'')
        ''Dept Date'' []) = None
   \<and> (\<exists>leg line. read_row Map.empty (example_row ''1'' ''1'' ''100'' ''JFK'' ''ATL'' ''not-a-date'')
                     = Inr leg
         \<and> cells leg = example_row ''1'' ''1'' ''100'' ''JFK'' ''ATL'' ''not-a-date''
         \<and> Dept_DateTime leg = None
         \<and> example_row ''1'' ''1'' ''100'' ''JFK'' ''ATL'' ''not-a-date'' ''Line Num'' = Some line
         \<and> read_rows Map.empty [example_row ''1'' ''1'' ''100'' ''JFK'' ''ATL'' ''not-a-date''] [] []
             = read_rows Map.empty [] ([] @ [leg]) (dict_append [] line leg))"
  using date_parser_first_match[where s = "''  ''"
      and r = "example_row ''1'' ''1'' ''100'' ''JFK'' ''ATL'' ''not-a-date''"
      and offs = Map.empty and rows = "[]" and all_legs = "[]" and shells = "[]"]
    unparsable_row_facts
  by blast

lemma date_format_examples:
  "parse_flexible_date ''20Dec25'' = Some \<lparr>year = 2025, month = 12, day = 20, hour = 0, minute = 0\<rparr>"
  "parse_flexible_date ''10/09/2025'' = Some \<lparr>year = 2025, month = 10, day = 9, hour = 0, minute = 0\<rparr>"
  "parse_flexible_date ''10/09/25'' = Some \<lparr>year = 2025, month = 10, day = 9, hour = 0, minute = 0\<rparr>"
  "parse_flexible_date ''20-Dec-25'' = Some \<lparr>year = 2025, month = 12, day = 20, hour = 0, minute = 0\<rparr>"
  "parse_flexible_date ''20/12/2025'' = Some \<lparr>year = 2025, month = 12, day = 20, hour = 0, minute = 0\<rparr>"
  "parse_flexible_date ''2025-12-20'' = Some \<lparr>year = 2025, month = 12, day = 20, hour = 0, minute = 0\<rparr>"
  "parse_flexible_date ''20Dec2025'' = Some \<lparr>year = 2025, month = 12, day = 20, hour = 0, minute = 0\<rparr>"
  "parse_flexible_date ''10-09-2025'' = Some \<lparr>year = 2025, month = 10, day = 9, hour = 0, minute = 0\<rparr>"
  by code_simp+

section \<open>The onward leg when no rotation id is empty\<close>

lemma find_connecting_shell_first:
  "find_connecting_shell shells P a = map_option fst (connecting_shell shells P a)"
  unfolding connecting_shell_def
  by (induction shells P a rule: find_connecting_shell.induct) (auto split: list.splits)

lemma onward_of_last_connecting:
  assumes "distinct (map fst shells)" and "[] \<notin> fst ` set shells"
  shows "onward_of_last shells P leg
         = Inr (map_option (\<lambda>kv. hd (snd kv)) (connecting_shell shells P (leg_get leg ''Arvl Sta'' [])))"
proof (cases "connecting_shell shells P (leg_get leg ''Arvl Sta'' [])")
  case None
  then show ?thesis
    by (simp add: onward_of_last_def find_connecting_shell_first truthy_def)
next
  case (Some kv)
  obtain k legs where kv: "kv = (k, legs)" by (cases kv)
  from Some obtain i where i: "i < length shells" "kv = shells ! i" "snd (shells ! i) \<noteq> []"
    unfolding connecting_shell_def find_Some_iff by blast
  from i(1,2) have mem: "(k, legs) \<in> set shells" using kv by (metis nth_mem)
  from i(2,3) have ne: "legs \<noteq> []" using kv by (metis snd_conv)
  from mem assms(2) have k: "k \<noteq> []" by force
  from mem assms(1) have "map_of shells k = Some legs" by simp
  then have look: "dict_lookup shells k = Inr legs" by (simp add: dict_lookup_def)
  from ne obtain f r where legs: "legs = f # r" by (cases legs) auto
  show ?thesis
    using Some k look
    by (simp add: onward_of_last_def find_connecting_shell_first truthy_def kv legs)
qed

lemma process_legs_onward:
  "distinct (map fst shells) \<Longrightarrow> [] \<notin> fst ` set shells \<Longrightarrow>
   process_legs shells P legs sn
     = Inr (pair_lines (zip legs (onward_legs shells P legs)) sn, sn + 2 * length legs)"
proof (induction shells P legs arbitrary: sn rule: onward_legs.induct)
  case (1 shells visited)
  then show ?case by simp
next
  case (2 shells visited l)
  then show ?case by (simp add: onward_of_last_connecting)
next
  case (3 shells visited l n r)
  then show ?case by simp
qed

lemma onward_fields:
  "field (type3_record leg (Some n) sn) 138 140 = pad_right (leg_get n ''Aln'' []) 3"
  "field (type3_record leg (Some n) sn) 141 144 = pad_left (leg_get n ''Flt Num'' []) 4 CHR '' ''"
  "field (type3_record leg None sn) 138 140 = ''   ''"
  "field (type3_record leg None sn) 141 144 = ''    ''"
proof -
  have "pad_right [] 3 = ''   ''" "pad_left [] 4 CHR '' '' = ''    ''" by code_simp+
  then show "field (type3_record leg None sn) 138 140 = ''   ''"
    "field (type3_record leg None sn) 141 144 = ''    ''"
    by (simp_all add: type3_fields)
qed (simp_all add: type3_fields)

lemma empty_id_rows_read:
  "map_sum id (\<lambda>ls. map fst (snd ls))
     (read_low_csv Map.empty [example_row ''1'' ''1'' ''100'' ''JFK'' ''ATL'' ''not-a-date'',
                              example_row [] ''1'' ''200'' ''ATL'' ''JFK'' ''not-a-date''])
   = Inr [''1'', []]"
  by code_simp

section \<open>C2: every Shell once\<close>

lemma next_shell_Inr:
  assumes "next_shell shells P cur legs = Inr nid" and "P \<subseteq> fst ` set shells"
    and "card P < length shells" and "distinct (map fst shells)"
  shows "nid \<in> fst ` set shells \<and> nid \<notin> P"
proof (cases "legs = []")
  case True
  with assms(1) show ?thesis by (simp add: next_shell_def)
next
  case False
  from next_shell_ok[OF False assms(2,3,4), of cur] assms(1) show ?thesis by auto
qed

lemma loop_body_Inr:
  assumes "loop_body shells st = Inr st1"
  shows "processed st1 = insert (current st) (processed st)"
    and "card (insert (current st) (processed st)) < length shells \<Longrightarrow>
         \<exists>legs. next_shell shells (insert (current st) (processed st)) (current st) legs
                  = Inr (current st1)"
  using assms
  by (auto simp: loop_body_def split: sum.splits if_splits prod.splits)

lemma chain_loop_terminates:
  assumes dist: "distinct (map fst shells)"
  shows "processed st \<subseteq> fst ` set shells \<Longrightarrow> current st \<in> fst ` set shells \<Longrightarrow>
         current st \<notin> processed st \<Longrightarrow> \<exists>r. chain_loop shells st = Some r"
proof (induction "length shells - card (processed st)" arbitrary: st rule: less_induct)
  case less
  let ?K = "fst ` set shells"
  let ?P = "processed st"
  let ?P' = "insert (current st) ?P"
  have finK: "finite ?K" by simp
  have finP: "finite ?P" using less.prems(1) finK finite_subset by blast
  have cardK: "card ?K = length shells" using dist by (rule card_keys)
  have "?P \<subset> ?K" using less.prems by blast
  then have lt: "card ?P < length shells" using psubset_card_mono[OF finK] cardK by metis
  have cardP': "card ?P' = Suc (card ?P)" using finP less.prems(3) by simp
  have subP': "?P' \<subseteq> ?K" using less.prems by simp
  show ?case
  proof (cases "loop_body shells st")
    case (Inl e)
    with lt have "chain_loop shells st = Some (Inl e)" by (subst chain_loop.simps) simp
    then show ?thesis by blast
  next
    case (Inr st1)
    have p1: "processed st1 = ?P'" using loop_body_Inr(1)[OF Inr] .
    have step: "chain_loop shells st = chain_loop shells st1"
      using lt Inr by (subst chain_loop.simps) simp
    show ?thesis
    proof (cases "card ?P' < length shells")
      case True
      then obtain legs where "next_shell shells ?P' (current st) legs = Inr (current st1)"
        using loop_body_Inr(2)[OF Inr] by blast
      from next_shell_Inr[OF this subP' True dist]
      have "current st1 \<in> ?K" "current st1 \<notin> processed st1" by (simp_all add: p1)
      moreover have "processed st1 \<subseteq> ?K" using subP' by (simp add: p1)
      moreover have "length shells - card (processed st1) < length shells - card ?P"
        using True cardP' by (simp add: p1)
      ultimately show ?thesis using less.hyps[of st1] step by simp
    next
      case False
      then have "chain_loop shells st1 = Some (Inr st1)"
        by (subst chain_loop.simps) (simp add: p1)
      with step show ?thesis by simp
    qed
  qed
qed

lemma write_terminates:
  assumes "distinct (map fst shells)"
  shows "\<exists>r. write_ssim_with_segments e all_legs shells = Some r"
proof (cases shells)
  case Nil
  then show ?thesis by (simp add: write_no_shells)
next
  case (Cons kv rest)
  let ?st = "\<lparr>processed = {}, current = fst kv, serial = 3, out = [], visits = []\<rparr>"
  have "processed ?st \<subseteq> fst ` set shells" "current ?st \<in> fst ` set shells"
       "current ?st \<notin> processed ?st"
    by (simp_all add: Cons)
  from chain_loop_terminates[OF assms this] obtain r where r: "chain_loop shells ?st = Some r"
    by blast
  show ?thesis
    unfolding write_ssim_with_segments_def Let_def
    using r by (cases r) (simp_all add: Cons)
qed

text \<open>
  C2. The Shells map is a dictionary, so its ids are distinct. For every such map with at
  least one Shell the chained writer returns: its traversal loop terminates. When no Shell
  of the map is empty, which holds for every map the reader builds, it returns without an
  error, the loop has processed every Shell exactly once, and the lines between the header
  block and the trailer block are the Type-3/Type-4 pairs of the legs of the Shells in
  processing order, so every leg of the map is in exactly one pair.
\<close>

theorem chain_visits_every_shell_once:
  assumes "distinct (map fst shells)" and "shells \<noteq> []"
  shows "(\<exists>r. write_ssim_with_segments e all_legs shells = Some r)
       \<and> ((\<forall>kv \<in> set shells. snd kv \<noteq> []) \<longrightarrow>
           (\<exists>vs prs. write_ssim_with_segments e all_legs shells
               = Some (Inr (header_block e all_legs @ pair_lines prs 3 @ replicate 4 zero_line
                            @ [type5_record (today_date e) (3 + 2 * length prs)]
                            @ replicate 14 zero_line, vs))
             \<and> distinct vs \<and> set vs = fst ` set shells \<and> length vs = length shells
             \<and> map fst prs = concat (map (shell_legs shells) vs)
             \<and> mset (map fst prs) = mset (concat (map snd shells))))"
proof -
  have a: "\<exists>r. write_ssim_with_segments e all_legs shells = Some r"
    using assms(1) by (rule write_terminates)
  have b: "\<exists>vs prs. write_ssim_with_segments e all_legs shells
               = Some (Inr (header_block e all_legs @ pair_lines prs 3 @ replicate 4 zero_line
                            @ [type5_record (today_date e) (3 + 2 * length prs)]
                            @ replicate 14 zero_line, vs))
             \<and> distinct vs \<and> set vs = fst ` set shells \<and> length vs = length shells
             \<and> map fst prs = concat (map (shell_legs shells) vs)
             \<and> mset (map fst prs) = mset (concat (map snd shells))"
    if "\<forall>kv \<in> set shells. snd kv \<noteq> []"
  proof -
    have "shells_invariant shells" using assms(1) that by (simp add: shells_invariant_def)
    then show ?thesis using assms(2) by (rule write_structure_legs)
  qed
  show ?thesis using a b by blast
qed

lemma example_shells_legs: "distinct (map fst example_shells)" "list_all (\<lambda>kv. snd kv \<noteq> []) example_shells"
  by (simp_all add: example_shells_def)

theorem chain_visits_every_shell_once_witness:
  "distinct (map fst example_shells) \<and> example_shells \<noteq> []
   \<and> list_all (\<lambda>kv. snd kv \<noteq> []) example_shells
   \<and> (\<exists>vs prs. write_ssim_with_segments example_env [] example_shells
           = Some (Inr (header_block example_env [] @ pair_lines prs 3 @ replicate 4 zero_line
                        @ [type5_record (today_date example_env) (3 + 2 * length prs)]
                        @ replicate 14 zero_line, vs))
         \<and> distinct vs \<and> set vs = fst ` set example_shells \<and> length vs = length example_shells
         \<and> map fst prs = concat (map (shell_legs example_shells) vs)
         \<and> mset (map fst prs) = mset (concat (map snd example_shells)))"
  using chain_visits_every_shell_once[OF example_shells_legs(1) shells_invariant_example(2),
      of example_env "[]"] example_shells_legs shells_invariant_example(2)
  by (simp add: list_all_iff)

lemma every_read_leg_emitted:
  assumes "read_low_csv offs rows = Inr (all_legs, shells)" and "rows \<noteq> []"
  shows "\<exists>vs prs. write_ssim_with_segments e all_legs shells
           = Some (Inr (header_block e all_legs @ pair_lines prs 3 @ replicate 4 zero_line
                        @ [type5_record (today_date e) (3 + 2 * length prs)]
                        @ replicate 14 zero_line, vs))
         \<and> distinct vs \<and> set vs = fst ` set shells
         \<and> mset (map fst prs) = mset all_legs"
proof -
  have r: "shells_invariant shells" "mset (concat (map snd shells)) = mset all_legs"
    "map cells all_legs = rows"
    using read_low_csv_result[OF assms(1)] by simp_all
  have "all_legs \<noteq> []" using r(3) assms(2) by auto
  then have "shells \<noteq> []" using r(2) by auto
  from write_structure_legs[OF r(1) this, of e all_legs] r(2) show ?thesis by auto
qed


section \<open>C5: every line has 200 characters\<close>






end
